theory Spec2Isabelle
  imports Complex_Main "HOL-Library.Word" "HOL-Library.Monad_Syntax" "HOL-Library.List_Lexorder"
begin

unbundle bit_operations_syntax

section \<open>Byte buffers\<close>

text \<open>
  An HLL is a Go byte slice. A slice is modelled by the list of its bytes; a method that
  writes through its receiver returns the updated list. A run-time panic of the Go code
  (an index or a slice bound out of range) is the result \<open>None\<close>. Two buffers handed to
  one operation are modelled as two values, that is, as slices that do not overlap.
\<close>

type_synonym byte = "8 word"
type_synonym bytes = "byte list"

section \<open>Dense engine (dense.go)\<close>

text \<open>\<open>func (h Dense) m() int { return (len(h) / 3) << 2 }\<close>\<close>

definition Dense_m :: "bytes \<Rightarrow> nat" where
  "Dense_m h = push_bit 2 (length h div 3)"

text \<open>
  \<open>Dense.get\<close>: \<open>bp := (idx >> 2) * 3\<close>, \<open>s := idx & 3\<close>. Registers 0, 1, 2 of a group
  are the high six bits of byte \<open>bp + s\<close>; register 3 is put together from the low two
  bits of the three bytes. The constant \<open>mask = ^byte(3)\<close> is 252, so \<open>x &^ mask\<close> is
  \<open>x AND 3\<close>.
\<close>

definition Dense_get :: "bytes \<Rightarrow> nat \<Rightarrow> byte option" where
  "Dense_get h idx =
     (let bp = drop_bit 2 idx * 3;
          s = idx AND 3
      in if s \<noteq> 3 then
           (if bp + s < length h then Some (drop_bit 2 (h ! (bp + s))) else None)
         else if bp + 2 < length h then
           (let x0 = h ! bp; x1 = h ! (bp + 1); x2 = h ! (bp + 2);
                xL0 = x0 AND NOT 252; xL1 = x1 AND NOT 252; xL2 = x2 AND NOT 252
            in Some (push_bit 4 xL0 XOR push_bit 2 xL1 XOR xL2))
         else None)"

text \<open>\<open>Dense.set\<close>: the same addressing; the other bits of each byte written are kept.\<close>

definition Dense_set :: "bytes \<Rightarrow> nat \<Rightarrow> byte \<Rightarrow> bytes option" where
  "Dense_set h idx v =
     (let bp = drop_bit 2 idx * 3;
          s = idx AND 3
      in if s \<noteq> 3 then
           (if bp + s < length h
            then Some (h[bp + s := (h ! (bp + s) AND 3) XOR push_bit 2 v])
            else None)
         else if bp + 2 < length h then
           (let x0 = h ! bp; x1 = h ! (bp + 1); x2 = h ! (bp + 2)
            in Some (h[bp := (x0 AND 252) XOR drop_bit 4 v,
                       bp + 1 := (x1 AND 252) XOR (drop_bit 2 v AND 3),
                       bp + 2 := (x2 AND 252) XOR (v AND 3)]))
         else None)"

text \<open>
  \<open>Dense.Add\<close>. \<open>bits.Clz\<close> counts the leading zero bits of the 64-bit hash (64 for 0);
  \<open>urho\<close> is capped at 63. The index arithmetic is on \<open>uint64\<close>. With \<open>m = 0\<close> the mask
  \<open>uint64(m) - 1\<close> wraps to all ones.
\<close>

definition Clz :: "64 word \<Rightarrow> nat" where
  "Clz x = length (takeWhile (\<lambda>i. \<not> bit x i) (rev [0..<64]))"

definition rho_of :: "64 word \<Rightarrow> byte" where
  "rho_of hash = (let urho = Clz hash + 1 in of_nat (if urho > 63 then 63 else urho))"

definition Dense_Add :: "bytes \<Rightarrow> 64 word \<Rightarrow> (bool \<times> bytes) option" where
  "Dense_Add h hash =
     (let mask = (of_nat (Dense_m h) :: 64 word) - 1;
          idx = hash AND mask;
          rho = rho_of hash;
          bp = drop_bit 2 idx * 3;
          s = idx AND 3
      in if s \<noteq> 3 then
           (let k = unat (bp + s) in
            if k < length h then
              (let b = h ! k; v = drop_bit 2 b
               in if v < rho then Some (True, h[k := (b AND 3) OR push_bit 2 rho])
                  else Some (False, h))
            else None)
         else
           (let k0 = unat bp; k1 = unat (bp + 1); k2 = unat (bp + 2) in
            if k0 < length h \<and> k1 < length h \<and> k2 < length h then
              (let x0 = h ! k0; x1 = h ! k1; x2 = h ! k2;
                   xL0 = x0 AND NOT 252; xL1 = x1 AND NOT 252; xL2 = x2 AND NOT 252;
                   v = push_bit 4 xL0 XOR push_bit 2 xL1 XOR xL2
               in if v \<ge> rho then Some (False, h)
                  else Some (True, h[k0 := (x0 AND 252) XOR drop_bit 4 rho,
                                     k1 := (x1 AND 252) XOR (drop_bit 2 rho AND 3),
                                     k2 := (x2 AND 252) XOR (rho AND 3)]))
            else None))"

text \<open>
  \<open>Dense.Merge\<close>. The loop \<open>for i := 0; i < len(h); i += 3\<close> reads \<open>h[i], h[i+1], h[i+2]\<close>
  and the same bytes of \<open>g\<close>, and writes the three bytes of \<open>h\<close>. Both buffers are
  threaded through the loop; only \<open>h\<close> is assigned to.
\<close>

datatype merge_error = SizeMismatch

definition merge_group :: "byte \<times> byte \<times> byte \<Rightarrow> byte \<times> byte \<times> byte \<Rightarrow> byte \<times> byte \<times> byte" where
  "merge_group x y =
     (case x of (x0, x1, x2) \<Rightarrow> case y of (y0, y1, y2) \<Rightarrow>
      let xH0 = x0 AND 252; xH1 = x1 AND 252; xH2 = x2 AND 252;
          xL0 = x0 AND NOT 252; xL1 = x1 AND NOT 252; xL2 = x2 AND NOT 252;
          yH0 = y0 AND 252; yH1 = y1 AND 252; yH2 = y2 AND 252;
          yL0 = y0 AND NOT 252; yL1 = y1 AND NOT 252; yL2 = y2 AND NOT 252;
          r0 = (if xH0 > yH0 then xH0 else yH0);
          r1 = (if xH1 > yH1 then xH1 else yH1);
          r2 = (if xH2 > yH2 then xH2 else yH2);
          xx = push_bit 4 xL0 XOR push_bit 2 xL1 XOR xL2;
          yy = push_bit 4 yL0 XOR push_bit 2 yL1 XOR yL2
      in if xx > yy then (r0 XOR xL0, r1 XOR xL1, r2 XOR xL2)
         else (r0 XOR yL0, r1 XOR yL1, r2 XOR yL2))"

function Merge_loop :: "nat \<Rightarrow> bytes \<Rightarrow> bytes \<Rightarrow> (bytes \<times> bytes) option" where
  "Merge_loop i h g =
     (if i < length h then
        (if i + 2 < length h \<and> i + 2 < length g then
           (case merge_group (h ! i, h ! (i + 1), h ! (i + 2)) (g ! i, g ! (i + 1), g ! (i + 2)) of
              (r0, r1, r2) \<Rightarrow> Merge_loop (i + 3) (h[i := r0, i + 1 := r1, i + 2 := r2]) g)
         else None)
      else Some (h, g))"
  by pat_completeness auto
termination
  by (relation "measure (\<lambda>(i, h, g). length h - i)") auto

declare Merge_loop.simps [simp del]

definition Dense_Merge :: "bytes \<Rightarrow> bytes \<Rightarrow> (merge_error option \<times> bytes \<times> bytes) option" where
  "Dense_Merge h g =
     (if length h \<noteq> length g then Some (Some SizeMismatch, h, g)
      else map_option (\<lambda>r. (None, r)) (Merge_loop 0 h g))"


text \<open>
  \<open>Dense.EstimateCardinality\<close>, the loop over the three-byte groups. It adds up
  \<open>lookup[v]\<close> for the four registers of a group and counts in \<open>V\<close> the tests
  \<open>v0 == 0\<close>, \<open>v1 == 0\<close>, \<open>v2 == 0\<close> and, a second time, \<open>v2 == 0\<close>, as the source has
  them. \<open>float64\<close> is modelled by \<open>real\<close>: rounding is not modelled. The table entry
  \<open>lookup[i] = math.Pow(2, -i)\<close> is the exact power of two.
\<close>

definition lookup :: "byte \<Rightarrow> real" where
  "lookup v = 1 / 2 ^ unat v"

function EstimateCardinality_loop :: "nat \<Rightarrow> bytes \<Rightarrow> real \<times> int \<Rightarrow> (real \<times> int) option" where
  "EstimateCardinality_loop i h acc =
     (if i < length h then
        (if i + 2 < length h then
           (case acc of (invSum, V) \<Rightarrow>
            let x0 = h ! i; x1 = h ! (i + 1); x2 = h ! (i + 2);
                v0 = drop_bit 2 x0; v1 = drop_bit 2 x1; v2 = drop_bit 2 x2;
                xL0 = x0 AND 3; xL1 = x1 AND 3; xL2 = x2 AND 3;
                v3 = push_bit 4 xL0 XOR push_bit 2 xL1 XOR xL2;
                invSum = invSum + lookup v0;
                invSum = invSum + lookup v1;
                invSum = invSum + lookup v2;
                invSum = invSum + lookup v3;
                V = (if v0 = 0 then V + 1 else V);
                V = (if v1 = 0 then V + 1 else V);
                V = (if v2 = 0 then V + 1 else V);
                V = (if v2 = 0 then V + 1 else V)
            in EstimateCardinality_loop (i + 3) h (invSum, V))
         else None)
      else Some acc)"
  by pat_completeness auto
termination
  by (relation "measure (\<lambda>(i, h, acc). length h - i)") auto

declare EstimateCardinality_loop.simps [simp del]

text \<open>The empty-register count \<open>V\<close> that the loop hands to \<open>correctedEstimate\<close>.\<close>

definition Dense_V :: "bytes \<Rightarrow> int option" where
  "Dense_V h = map_option snd (EstimateCardinality_loop 0 h (0, 0))"

text \<open>
  The number of registers \<open>i < m\<close> whose value, as \<open>Dense.get\<close> reads it, is zero.
\<close>

definition zero_registers :: "bytes \<Rightarrow> nat" where
  "zero_registers h = length (filter (\<lambda>i. Dense_get h i = Some 0) [0..<Dense_m h])"


section \<open>Byte order (encoding/binary)\<close>

text \<open>
  The standard library's readers and writers. \<open>Uint64_at s off\<close> is
  \<open>binary.LittleEndian.Uint64(s[off:])\<close> and \<open>PutUint64_at s off v\<close> is
  \<open>binary.LittleEndian.PutUint64(s[off:], v)\<close>: both panic unless eight bytes follow
  \<open>off\<close>.
\<close>

definition BigEndian_Uint32 :: "bytes \<Rightarrow> 32 word option" where
  "BigEndian_Uint32 b =
     (if length b < 4 then None
      else Some (ucast (b ! 3) OR push_bit 8 (ucast (b ! 2)) OR push_bit 16 (ucast (b ! 1))
                 OR push_bit 24 (ucast (b ! 0))))"

definition BigEndian_PutUint32 :: "bytes \<Rightarrow> 32 word \<Rightarrow> bytes option" where
  "BigEndian_PutUint32 b v =
     (if length b < 4 then None
      else Some (b[0 := ucast (drop_bit 24 v), 1 := ucast (drop_bit 16 v),
                   2 := ucast (drop_bit 8 v), 3 := ucast v]))"

definition BigEndian_Uint64 :: "bytes \<Rightarrow> 64 word option" where
  "BigEndian_Uint64 b =
     (if length b < 8 then None
      else Some (ucast (b ! 7) OR push_bit 8 (ucast (b ! 6)) OR push_bit 16 (ucast (b ! 5))
                 OR push_bit 24 (ucast (b ! 4)) OR push_bit 32 (ucast (b ! 3))
                 OR push_bit 40 (ucast (b ! 2)) OR push_bit 48 (ucast (b ! 1))
                 OR push_bit 56 (ucast (b ! 0))))"

definition BigEndian_PutUint64 :: "bytes \<Rightarrow> 64 word \<Rightarrow> bytes option" where
  "BigEndian_PutUint64 b v =
     (if length b < 8 then None
      else Some (b[0 := ucast (drop_bit 56 v), 1 := ucast (drop_bit 48 v),
                   2 := ucast (drop_bit 40 v), 3 := ucast (drop_bit 32 v),
                   4 := ucast (drop_bit 24 v), 5 := ucast (drop_bit 16 v),
                   6 := ucast (drop_bit 8 v), 7 := ucast v]))"

definition Uint64_at :: "bytes \<Rightarrow> nat \<Rightarrow> 64 word option" where
  "Uint64_at s off =
     (if length s < off + 8 then None
      else Some (ucast (s ! off) OR push_bit 8 (ucast (s ! (off + 1)))
                 OR push_bit 16 (ucast (s ! (off + 2))) OR push_bit 24 (ucast (s ! (off + 3)))
                 OR push_bit 32 (ucast (s ! (off + 4))) OR push_bit 40 (ucast (s ! (off + 5)))
                 OR push_bit 48 (ucast (s ! (off + 6))) OR push_bit 56 (ucast (s ! (off + 7)))))"

definition PutUint64_at :: "bytes \<Rightarrow> nat \<Rightarrow> 64 word \<Rightarrow> bytes option" where
  "PutUint64_at s off v =
     (if length s < off + 8 then None
      else Some (s[off := ucast v, off + 1 := ucast (drop_bit 8 v),
                   off + 2 := ucast (drop_bit 16 v), off + 3 := ucast (drop_bit 24 v),
                   off + 4 := ucast (drop_bit 32 v), off + 5 := ucast (drop_bit 40 v),
                   off + 6 := ucast (drop_bit 48 v), off + 7 := ucast (drop_bit 56 v)]))"

section \<open>Sparse engine (sparse.go)\<close>

datatype addResult = ok | full

text \<open>\<open>s.dirty()\<close> reads \<open>s[0]\<close>; \<open>s.size()\<close> masks the top bit off the big-endian word.\<close>

definition sparse_dirty :: "bytes \<Rightarrow> bool option" where
  "sparse_dirty s = (if s = [] then None else Some (s ! 0 AND 128 \<noteq> 0))"

definition sparse_size :: "bytes \<Rightarrow> 32 word option" where
  "sparse_size s = map_option (\<lambda>w. w AND NOT (push_bit 31 1)) (BigEndian_Uint32 s)"

definition sparse_setSize :: "bytes \<Rightarrow> 32 word \<Rightarrow> bytes option" where
  "sparse_setSize s sz = BigEndian_PutUint32 s sz"

text \<open>
  \<open>sortable.Less(i, j)\<close>: the eight bytes at \<open>i << 3\<close> and \<open>j << 3\<close> are compared from the
  first byte in memory on; the first pair that differs decides.
\<close>

fun Less_loop :: "bytes \<Rightarrow> nat \<Rightarrow> nat \<Rightarrow> nat \<Rightarrow> bool" where
  "Less_loop s i j 0 = False"
| "Less_loop s i j (Suc n) =
     (let a = s ! i; b = s ! j
      in if a < b then True else if a > b then False else Less_loop s (i + 1) (j + 1) n)"

definition sortable_Less :: "bytes \<Rightarrow> nat \<Rightarrow> nat \<Rightarrow> bool" where
  "sortable_Less s i j = Less_loop s (push_bit 3 i) (push_bit 3 j) 8"

definition sortable_Len :: "bytes \<Rightarrow> nat" where
  "sortable_Len s = drop_bit 3 (length s)"

text \<open>The \<open>i\<close>-th eight-byte element of a \<open>sortable\<close>, and the list of all \<open>Len()\<close> of them.\<close>

definition chunk :: "bytes \<Rightarrow> nat \<Rightarrow> bytes" where
  "chunk t i = take 8 (drop (8 * i) t)"

definition chunks :: "bytes \<Rightarrow> bytes list" where
  "chunks t = map (chunk t) [0..<sortable_Len t]"

text \<open>
  \<open>sort.Sort(t)\<close> is the standard library's sort, driven by \<open>Len\<close>, \<open>Less\<close> and \<open>Swap\<close>. It
  is modelled by what it guarantees: the elements are rearranged so that none is \<open>Less\<close>
  than one before it. \<open>Less\<close> is the lexicographic order of the eight bytes, which is the
  order of \<open>bytes\<close> as lists; two elements neither of which is \<open>Less\<close> than the other are
  the same eight bytes, so the outcome does not depend on the algorithm. Bytes after the
  last whole element stay where they are.
\<close>

definition sort_Sort :: "bytes \<Rightarrow> bytes" where
  "sort_Sort t = concat (sort (chunks t)) @ drop (8 * sortable_Len t) t"

text \<open>
  The loop of \<open>sparse.sort\<close> that removes duplicates. \<open>differ_loop\<close> is the inner loop over
  \<open>k\<close> that looks for a byte in which the element at \<open>from\<close> differs from the one before
  it; \<open>copy_loop\<close> moves the eight bytes down to \<open>to\<close>.
\<close>

fun differ_loop :: "bytes \<Rightarrow> nat \<Rightarrow> nat \<Rightarrow> nat \<Rightarrow> bool" where
  "differ_loop t prev i 0 = False"
| "differ_loop t prev i (Suc n) =
     (if t ! prev \<noteq> t ! i then True else differ_loop t (prev + 1) (i + 1) n)"

fun copy_loop :: "bytes \<Rightarrow> nat \<Rightarrow> nat \<Rightarrow> nat \<Rightarrow> nat \<times> bytes" where
  "copy_loop t to j 0 = (to, t)"
| "copy_loop t to j (Suc n) = copy_loop (t[to := t ! j]) (to + 1) (j + 1) n"

function dedup_loop :: "nat \<Rightarrow> nat \<Rightarrow> bytes \<Rightarrow> (nat \<times> bytes) option" where
  "dedup_loop from to t =
     (if from < length t then
        (if from = 0 then dedup_loop (from + 8) (to + 8) t
         else if length t < from + 8 then None
         else if differ_loop t (from - 8) from 8 then
           (if from = to then dedup_loop (from + 8) (to + 8) t
            else (case copy_loop t to from 8 of (to', t') \<Rightarrow> dedup_loop (from + 8) to' t'))
         else dedup_loop (from + 8) to t)
      else Some (to, t))"
  by pat_completeness auto
termination
  apply (relation "measure (\<lambda>(from, to, t). length t - from)")
        apply simp_all
  subgoal premises prems for frm tgt t x y
  proof -
    have "length (snd (copy_loop u a b n)) = length u" for u a b n
      by (induction n arbitrary: u a b) simp_all
    from this[of t tgt frm 8] prems(2) show ?thesis
      by (simp add: split_beta)
  qed
  done

declare dedup_loop.simps [simp del]

text \<open>The last loop of \<open>sparse.sort\<close>: \<open>for i := to; i < len(t); i++ { t[i] = 0 }\<close>.\<close>

function clear_loop :: "nat \<Rightarrow> bytes \<Rightarrow> bytes" where
  "clear_loop i t = (if i < length t then clear_loop (i + 1) (t[i := 0]) else t)"
  by pat_completeness auto
termination
  by (relation "measure (\<lambda>(i, t). length t - i)") auto

declare clear_loop.simps [simp del]

text \<open>
  \<open>sparse.sort\<close>. \<open>t := sortable(s[8:end])\<close> is a window of \<open>s\<close>: it is taken out, worked
  on, and written back at offset 8. \<open>end\<close> is \<open>uint32\<close> arithmetic; the slice expression
  panics unless \<open>8 \<le> end \<le> len(s)\<close>.
\<close>

definition sparse_sort :: "bytes \<Rightarrow> bytes option" where
  "sparse_sort s = do {
     sz \<leftarrow> sparse_size s;
     let end = unat (push_bit 3 sz + 8);
     if end < 8 \<or> length s < end then None
     else do {
       let t = sort_Sort (take (end - 8) (drop 8 s));
       (to, t) \<leftarrow> dedup_loop 0 0 t;
       s \<leftarrow> sparse_setSize (take 8 s @ t @ drop end s) (of_nat (drop_bit 3 to));
       let t = clear_loop to t;
       Some (take 8 s @ t @ drop end s)
     }
   }"

definition sparse_EstimateCardinality :: "bytes \<Rightarrow> (nat \<times> bytes) option" where
  "sparse_EstimateCardinality s = do {
     d \<leftarrow> sparse_dirty s;
     s \<leftarrow> (if d then sparse_sort s else Some s);
     sz \<leftarrow> sparse_size s;
     Some (unat sz, s)
   }"

text \<open>
  \<open>sparse.Add\<close>. \<open>sz\<close> and \<open>uint32(len(s)) >> 3\<close> are \<open>uint32\<close>; \<open>s[sz<<3:]\<close> starts at the
  \<open>uint32\<close> value \<open>sz << 3\<close>.
\<close>

definition sparse_Add :: "bytes \<Rightarrow> 64 word \<Rightarrow> (addResult \<times> bytes) option" where
  "sparse_Add s hash = do {
     sz \<leftarrow> sparse_size s;
     let sz = sz + 1;
     if sz < drop_bit 3 (of_nat (length s)) then do {
       s \<leftarrow> PutUint64_at s (unat (push_bit 3 sz)) hash;
       s \<leftarrow> sparse_setSize s (sz OR push_bit 31 1);
       Some (ok, s)
     } else do {
       d \<leftarrow> sparse_dirty s;
       if \<not> d then Some (full, s)
       else do {
         s \<leftarrow> sparse_sort s;
         sz \<leftarrow> sparse_size s;
         if sz + 100 < drop_bit 3 (of_nat (length s)) then do {
           let sz = sz + 1;
           s \<leftarrow> PutUint64_at s (unat (push_bit 3 sz)) hash;
           s \<leftarrow> sparse_setSize s (sz OR push_bit 31 1);
           Some (ok, s)
         } else Some (full, s)
       }
     }
   }"


section \<open>The estimator of the dense engine (dense.go)\<close>

text \<open>
  \<open>alpha\<close>, \<open>threshold\<close> and \<open>linearCounting\<close>, over \<open>real\<close> in place of \<open>float64\<close>. The
  zero-register count \<open>V\<close> is an \<open>int\<close>.
\<close>

definition alpha :: "nat \<Rightarrow> real" where
  "alpha m = (if m = 16 then 0.673 else if m = 32 then 0.697 else if m = 64 then 0.709
              else 0.7213 / (1 + 1.079 / real m))"

definition threshold :: "nat \<Rightarrow> real" where
  "threshold m =
     (if m = 2 ^ 4 then 13 else if m = 2 ^ 5 then 40 else if m = 2 ^ 6 then 70
      else if m = 2 ^ 7 then 180 else if m = 2 ^ 8 then 225 else if m = 2 ^ 9 then 1000
      else if m = 2 ^ 10 then 1750 else if m = 2 ^ 11 then 4600
      else if m = 2 ^ 12 then 10 * 1000 else if m = 2 ^ 13 then 22 * 1000
      else if m = 2 ^ 14 then 45 * 1000 else if m = 2 ^ 15 then 80 * 1000
      else if m = 2 ^ 16 then 150 * 1000 else if m = 2 ^ 17 then 400 * 1000
      else if m = 2 ^ 18 then 700 * 1000 else if m = 2 ^ 19 then 1850 * 1000
      else if m = 2 ^ 20 then 4200 * 1000 else real m * 8)"

definition linearCounting :: "nat \<Rightarrow> int \<Rightarrow> real" where
  "linearCounting m V = real m * ln (real m / real_of_int V)"

text \<open>
  \<open>estimateBias\<close>. The tables \<open>rawEstimateData\<close> and \<open>biasData\<close> are package constants that
  are not part of the sources at hand; they are parameters \<open>raw\<close> and \<open>bias\<close> here. The
  rows are indexed as the source indexes them; the tables are fixed data with rows of
  equal length, so no index is out of range. \<open>p\<close> is a byte, \<open>p - 4\<close> is byte arithmetic.
\<close>

function estimateBias_loop :: "real list \<Rightarrow> real list \<Rightarrow> real \<Rightarrow> nat \<Rightarrow> real" where
  "estimateBias_loop estimateVector biasV x i =
     (if i < length estimateVector - 1 then
        (let a = estimateVector ! i in
         if x = a then biasV ! i
         else if x > a then estimateBias_loop estimateVector biasV x (i + 1)
         else (let b = estimateVector ! (i + 1); vb = biasV ! (i + 1); va = biasV ! i;
                   r = (x - a) * vb + (b - x) * va
               in r / (b - a)))
      else 0)"
  by pat_completeness auto
termination
  by (relation "measure (\<lambda>(ev, bv, x, i). length ev - i)") auto

declare estimateBias_loop.simps [simp del]

definition estimateBias :: "real list list \<Rightarrow> real list list \<Rightarrow> real \<Rightarrow> byte \<Rightarrow> real" where
  "estimateBias raw bias x p =
     (if p > 18 then 0
      else (let estimateVector = raw ! unat (p - 4); N = length estimateVector in
            if x < estimateVector ! 0 \<or> x > estimateVector ! (N - 1) then 0
            else estimateBias_loop estimateVector (bias ! unat (p - 4)) x 0))"

text \<open>
  The loop \<open>for z := m; z != 0; z >>= 1 { p++ }\<close> counts the binary digits of \<open>m\<close>;
  \<open>p\<close> is a byte and \<open>p--\<close> wraps at zero.
\<close>

function count_bits :: "nat \<Rightarrow> nat" where
  "count_bits z = (if z = 0 then 0 else Suc (count_bits (drop_bit 1 z)))"
  by pat_completeness auto
termination
  by (relation "measure id") (auto simp: drop_bit_eq_div)

declare count_bits.simps [simp del]

definition precision_of :: "nat \<Rightarrow> byte" where
  "precision_of m = of_nat (count_bits m) - 1"

definition correctedEstimate :: "real list list \<Rightarrow> real list list \<Rightarrow> bytes \<Rightarrow> real \<Rightarrow> int \<Rightarrow> real" where
  "correctedEstimate raw bias h invSum V =
     (let m = Dense_m h;
          mf = real m;
          e = alpha m * mf * mf / invSum;
          p = precision_of m;
          e = (if e < 5 * mf then e - estimateBias raw bias e p else e);
          H = (if V \<noteq> 0 then linearCounting m V else e)
      in if H \<le> threshold m then H else e)"

text \<open>
  \<open>Dense.EstimateCardinality\<close>: \<open>math.Floor(est + 0.5)\<close>, capped at \<open>math.MaxUint64\<close>, then
  converted to \<open>uint64\<close>.
\<close>

definition Dense_EstimateCardinality :: "real list list \<Rightarrow> real list list \<Rightarrow> bytes \<Rightarrow> 64 word option" where
  "Dense_EstimateCardinality raw bias h = do {
     (invSum, V) \<leftarrow> EstimateCardinality_loop 0 h (0, 0);
     let est = correctedEstimate raw bias h invSum V;
     let card = \<lfloor>est + 0.5\<rfloor>;
     if real_of_int card > 2 ^ 64 - 1 then Some (- 1) else Some (of_int card)
   }"

section \<open>Hybrid HLL (hll.go)\<close>

text \<open>
  \<open>mergeIntoDense\<close> and \<open>mergeIntoSparse\<close> walk over the \<open>sz\<close> stored hashes of \<open>s\<close>: each
  round drops eight bytes (\<open>s = s[8:]\<close>) and reads the next eight. The first argument of
  the loops is the number of rounds left.
\<close>

fun mergeIntoDense_loop :: "nat \<Rightarrow> bytes \<Rightarrow> bytes \<Rightarrow> bytes option" where
  "mergeIntoDense_loop 0 h s = Some h"
| "mergeIntoDense_loop (Suc n) h s =
     (if length s < 8 then None
      else do {
        let s = drop 8 s;
        hash \<leftarrow> Uint64_at s 0;
        (changed, h) \<leftarrow> Dense_Add h hash;
        mergeIntoDense_loop n h s
      })"

definition mergeIntoDense :: "bytes \<Rightarrow> bytes \<Rightarrow> bytes option" where
  "mergeIntoDense h s = do {
     sz \<leftarrow> sparse_size s;
     mergeIntoDense_loop (unat sz) h s
   }"

fun mergeIntoSparse_loop :: "nat \<Rightarrow> bytes \<Rightarrow> bytes \<Rightarrow> (addResult \<times> bytes) option" where
  "mergeIntoSparse_loop 0 t s = Some (ok, t)"
| "mergeIntoSparse_loop (Suc n) t s =
     (if length s < 8 then None
      else do {
        let s = drop 8 s;
        hash \<leftarrow> Uint64_at s 0;
        (r, t) \<leftarrow> sparse_Add t hash;
        if r = full then Some (full, t) else mergeIntoSparse_loop n t s
      })"

definition mergeIntoSparse :: "bytes \<Rightarrow> bytes \<Rightarrow> (addResult \<times> bytes) option" where
  "mergeIntoSparse t s = do {
     sz \<leftarrow> sparse_size s;
     mergeIntoSparse_loop (unat sz) t s
   }"

text \<open>
  \<open>toDense\<close>. \<open>Alloc\<close> is the package's default, \<open>make([]byte, n)\<close>: a zeroed block, and a
  panic for a negative \<open>n\<close>. \<open>copy(s[8:], tmp)\<close> overwrites everything after the header.
\<close>

definition toDense :: "bytes \<Rightarrow> bytes option" where
  "toDense s =
     (if length s < 8 then None
      else do {
        tmp \<leftarrow> mergeIntoDense (replicate (length s - 8) 0) s;
        Some ((take 8 s @ tmp)[0 := 128 + 64])
      })"

text \<open>
  \<open>HLL.Add\<close>. \<open>Dense(h[8:])\<close> is the window after the header, written back in place. The
  constants \<open>1<<6\<close> and \<open>1<<7\<close> are written 64 and 128.
\<close>

definition HLL_Add :: "bytes \<Rightarrow> 64 word \<Rightarrow> bytes option" where
  "HLL_Add h hash =
     (if h = [] then None
      else if h ! 0 AND 64 \<noteq> 0 then
        (if length h < 8 then None
         else do {
           (changed, d) \<leftarrow> Dense_Add (drop 8 h) hash;
           let h = take 8 h @ d;
           Some (if changed then h[0 := h ! 0 OR 128] else h)
         })
      else do {
        (r, s) \<leftarrow> sparse_Add h hash;
        if r = ok then Some s
        else do {
          s \<leftarrow> toDense s;
          (changed, d) \<leftarrow> Dense_Add (drop 8 s) hash;
          Some (take 8 s @ d)
        }
      })"

text \<open>
  \<open>HLL.Merge\<close>. The result is the error (or \<open>None\<close> for \<open>nil\<close>), the receiver and the
  argument. No statement of \<open>Merge\<close> or of the functions it calls assigns through \<open>g\<close>.
\<close>

definition HLL_Merge :: "bytes \<Rightarrow> bytes \<Rightarrow> (merge_error option \<times> bytes \<times> bytes) option" where
  "HLL_Merge h g =
     (if length h \<noteq> length g then Some (Some SizeMismatch, h, g)
      else if h = [] then None
      else
        (let hDense = (h ! 0 AND 64 \<noteq> 0);
             gDense = (g ! 0 AND 64 \<noteq> 0)
         in if hDense \<and> gDense then
              (if length h < 8 then None
               else do {
                 (e, d, g') \<leftarrow> Dense_Merge (drop 8 h) (drop 8 g);
                 let h = take 8 h @ d;
                 Some (None, h[0 := h ! 0 OR 128], g)
               })
            else if \<not> hDense \<and> \<not> gDense then do {
              (r, h) \<leftarrow> mergeIntoSparse h g;
              if r = ok then Some (None, h, g)
              else do {
                h \<leftarrow> toDense h;
                d \<leftarrow> mergeIntoDense (drop 8 h) g;
                Some (None, (take 8 h @ d)[0 := 128 + 64], g)
              }
            }
            else if hDense then
              (if length h < 8 then None
               else do {
                 d \<leftarrow> mergeIntoDense (drop 8 h) g;
                 let h = take 8 h @ d;
                 Some (None, h[0 := h ! 0 OR 128], g)
               })
            else do {
              h \<leftarrow> toDense h;
              (e, d, g') \<leftarrow> Dense_Merge (drop 8 h) (drop 8 g);
              Some (None, take 8 h @ d, g)
            }))"

text \<open>
  \<open>HLL.IsValid\<close>; \<open>None\<close> is \<open>nil\<close>. The size is read only from a buffer of at least
  eight bytes, so the read cannot panic.
\<close>

datatype valid_error = TooSmall | NotMultipleOf3 | NotPowerOfTwo | BadPrecision | SparseCorrupted

definition HLL_IsValid :: "bytes \<Rightarrow> valid_error option" where
  "HLL_IsValid h =
     (if length h < 8 then Some TooSmall
      else if (length h - 8) mod 3 \<noteq> 0 then Some NotMultipleOf3
      else (let m = Dense_m (drop 8 h) in
            if int m AND (int m - 1) \<noteq> 0 then Some NotPowerOfTwo
            else (let p = precision_of m in
                  if p < 4 \<or> p > 25 then Some BadPrecision
                  else if h ! 0 AND 64 = 0 then
                    (case sparse_size h of
                       None \<Rightarrow> None
                     | Some sz \<Rightarrow> if length h < 8 + 8 * unat sz then Some SparseCorrupted else None)
                  else None)))"

definition HLL_IsSparse :: "bytes \<Rightarrow> bool option" where
  "HLL_IsSparse h = (if h = [] then None else Some (h ! 0 AND 64 = 0))"

text \<open>
  \<open>HLL.EstimateCardinality\<close>. The estimator of the dense engine computes in \<open>float64\<close>; it
  is the parameter \<open>dense\<close> here, so that what is proved of the header holds for every
  estimator. \<open>mask\<close> is \<open>1<<63 + 1<<62\<close>.
\<close>

definition HLL_EstimateCardinality :: "(bytes \<Rightarrow> 64 word option) \<Rightarrow> bytes \<Rightarrow> (64 word \<times> bytes) option" where
  "HLL_EstimateCardinality dense h =
     (if h = [] then None
      else if h ! 0 AND 64 \<noteq> 0 then
        (let mask = push_bit 63 1 + push_bit 62 1 :: 64 word in
         if h ! 0 AND 128 = 0 then
           map_option (\<lambda>w. (w AND NOT mask, h)) (BigEndian_Uint64 h)
         else if length h < 8 then None
         else do {
           card \<leftarrow> dense (drop 8 h);
           if card AND mask \<noteq> 0 then Some (card, h)
           else do {
             h \<leftarrow> BigEndian_PutUint64 h (card OR push_bit 62 1);
             Some (card, h)
           }
         })
      else map_option (\<lambda>(n, s). (of_nat n, s)) (sparse_EstimateCardinality h))"

text \<open>\<open>HLL.Reset\<close>: \<open>for i := range h { h[i] = 0 }\<close>.\<close>

definition HLL_Reset :: "bytes \<Rightarrow> bytes" where
  "HLL_Reset h = map (\<lambda>b. 0) h"


section \<open>The public interface as steps on a buffer\<close>

text \<open>
  The operations of the public interface and the buffer each of them leaves behind.
  \<open>IsSparse\<close> and \<open>IsValid\<close> only read. The estimator of the dense engine is a parameter,
  as in \<open>HLL_EstimateCardinality\<close>.
\<close>

datatype hll_op = Add "64 word" | Merge bytes | EstimateCardinality | Reset | IsSparse | IsValid

definition step :: "(bytes \<Rightarrow> 64 word option) \<Rightarrow> hll_op \<Rightarrow> bytes \<Rightarrow> bytes option" where
  "step dense op h =
     (case op of
        Add hash \<Rightarrow> HLL_Add h hash
      | Merge g \<Rightarrow> map_option (\<lambda>(e, h', g'). h') (HLL_Merge h g)
      | EstimateCardinality \<Rightarrow> map_option snd (HLL_EstimateCardinality dense h)
      | Reset \<Rightarrow> Some (HLL_Reset h)
      | IsSparse \<Rightarrow> map_option (\<lambda>b. h) (HLL_IsSparse h)
      | IsValid \<Rightarrow> Some h)"

text \<open>Register 3 of a three-byte group, as \<open>Dense.get\<close> puts it together.\<close>

definition dreg :: "byte \<times> byte \<times> byte \<Rightarrow> byte" where
  "dreg x = (case x of (x0, x1, x2) \<Rightarrow>
     push_bit 4 (x0 AND NOT 252) XOR push_bit 2 (x1 AND NOT 252) XOR (x2 AND NOT 252))"


text \<open>
  The eight bytes \<open>binary.LittleEndian.PutUint64\<close> writes for a value, and the value
  \<open>binary.LittleEndian.Uint64\<close> reads from eight bytes.
\<close>

definition enc64 :: "64 word \<Rightarrow> bytes" where
  "enc64 v = [ucast v, ucast (drop_bit 8 v), ucast (drop_bit 16 v), ucast (drop_bit 24 v),
              ucast (drop_bit 32 v), ucast (drop_bit 40 v), ucast (drop_bit 48 v),
              ucast (drop_bit 56 v)]"

definition dec64 :: "bytes \<Rightarrow> 64 word" where
  "dec64 b = ucast (b ! 0) OR push_bit 8 (ucast (b ! 1)) OR push_bit 16 (ucast (b ! 2))
             OR push_bit 24 (ucast (b ! 3)) OR push_bit 32 (ucast (b ! 4))
             OR push_bit 40 (ucast (b ! 5)) OR push_bit 48 (ucast (b ! 6))
             OR push_bit 56 (ucast (b ! 7))"

text \<open>
  The duplicate-removing loop of \<open>sparse.sort\<close> seen on the list of eight-byte elements:
  \<open>k\<close> and \<open>j\<close> are \<open>from\<close> and \<open>to\<close> counted in elements.
\<close>

function dedup_chunks :: "nat \<Rightarrow> nat \<Rightarrow> bytes list \<Rightarrow> nat \<times> bytes list" where
  "dedup_chunks k j ds =
     (if k < length ds then
        (if k = 0 then dedup_chunks (k + 1) (j + 1) ds
         else if ds ! (k - 1) \<noteq> ds ! k then
           (if k = j then dedup_chunks (k + 1) (j + 1) ds
            else dedup_chunks (k + 1) (j + 1) (ds[j := ds ! k]))
         else dedup_chunks (k + 1) j ds)
      else (j, ds))"
  by pat_completeness auto
termination
  by (relation "measure (\<lambda>(k, j, ds). length ds - k)") auto

declare dedup_chunks.simps [simp del]

text \<open>A list of elements each of which is eight bytes long.\<close>

definition chunked :: "bytes list \<Rightarrow> bool" where
  "chunked cs \<longleftrightarrow> list_all (\<lambda>c. length c = 8) cs"


text \<open>
  What a sparse buffer stores: the elements after the header, as many as the size field
  says, and the hashes they are the little-endian encodings of. \<open>be32\<close> is the four bytes
  \<open>binary.BigEndian.PutUint32\<close> writes.
\<close>

definition stored :: "bytes \<Rightarrow> bytes list" where
  "stored s = (case sparse_size s of None \<Rightarrow> [] | Some n \<Rightarrow> chunks (take (8 * unat n) (drop 8 s)))"

definition hashes :: "bytes \<Rightarrow> 64 word list" where
  "hashes s = map dec64 (stored s)"

definition be32 :: "32 word \<Rightarrow> bytes" where
  "be32 w = [ucast (drop_bit 24 w), ucast (drop_bit 16 w), ucast (drop_bit 8 w), ucast w]"

text \<open>
  The buffer \<open>sparse.Add\<close> leaves when it appends: the hash is written into the slot after
  the \<open>n\<close> used ones, then the size \<open>n + 1\<close> with the dirty bit goes into the header.
\<close>

definition appended :: "bytes \<Rightarrow> 32 word \<Rightarrow> 64 word \<Rightarrow> bytes" where
  "appended s n x =
     be32 ((n + 1) OR push_bit 31 1) @
     drop 4 (take (8 * unat n + 8) s @ enc64 x @ drop (8 * unat n + 16) s)"

text \<open>
  The capacity the specification speaks of, \<open>floor(len(buffer)/8) - 1\<close> slots, and a sparse
  buffer of precision 11 (1544 bytes, 192 slots) that is full and dirty: it holds the
  hashes 0 to 90 once and the hash 91 a hundred and one times.
\<close>

definition capacity :: "bytes \<Rightarrow> int" where
  "capacity s = int (length s div 8) - 1"

definition P11_full :: bytes where
  "P11_full = be32 (192 OR push_bit 31 1) @ [0, 0, 0, 0] @
     concat (map (\<lambda>k. enc64 (of_nat k)) ([0..<92] @ replicate 100 91))"

text \<open>
  Calls in sequence. \<open>Add_all\<close> adds the hashes of a list one after the other; \<open>run\<close> does
  the same for a list of operations of the public interface. \<open>added\<close> picks the hashes of
  the \<open>Add\<close> operations, and \<open>adds_and_reads\<close> holds of the operations \<open>Add\<close>,
  \<open>EstimateCardinality\<close>, \<open>IsSparse\<close> and \<open>IsValid\<close>.
\<close>

fun Add_all :: "bytes \<Rightarrow> 64 word list \<Rightarrow> bytes option" where
  "Add_all h [] = Some h"
| "Add_all h (x # xs) = (case HLL_Add h x of None \<Rightarrow> None | Some h' \<Rightarrow> Add_all h' xs)"

fun run :: "(bytes \<Rightarrow> 64 word option) \<Rightarrow> bytes \<Rightarrow> hll_op list \<Rightarrow> bytes option" where
  "run dense h [] = Some h"
| "run dense h (op # ops) = (case step dense op h of None \<Rightarrow> None | Some h' \<Rightarrow> run dense h' ops)"

fun added :: "hll_op list \<Rightarrow> 64 word list" where
  "added [] = []"
| "added (Add x # ops) = x # added ops"
| "added (op # ops) = added ops"

fun adds_and_reads :: "hll_op \<Rightarrow> bool" where
  "adds_and_reads (Merge g) = False"
| "adds_and_reads Reset = False"
| "adds_and_reads op = True"

text \<open>
  A well-formed sparse buffer: the mode bit is clear, the stored count fits the buffer,
  and a clean buffer holds every hash once.
\<close>

definition sparse_ok :: "bytes \<Rightarrow> bool" where
  "sparse_ok h \<longleftrightarrow>
     HLL_IsSparse h = Some True \<and> length h < 2 ^ 32 \<and>
     (\<exists>n d. sparse_size h = Some n \<and> 8 + 8 * unat n \<le> length h \<and> sparse_dirty h = Some d \<and>
            (d \<or> unat n = card (set (hashes h))))"


lemma lt8_cases:
  assumes "k < (8::nat)"
  obtains "k = 0" | "k = 1" | "k = 2" | "k = 3" | "k = 4" | "k = 5" | "k = 6" | "k = 7"
  using assms by linarith

lemma le63_bit: "(v::byte) \<le> 63 \<Longrightarrow> \<not> bit v 6 \<and> \<not> bit v 7"
proof -
  assume "v \<le> 63"
  then have "v < 2 ^ 6" by (simp add: word_less_nat_alt word_le_nat_alt)
  then have e: "v AND mask 6 = v" by (rule less_mask_eq)
  have *: "n < 6" if "bit v n" for n
  proof -
    from that have "bit (v AND mask 6) n" by (simp only: e)
    then show ?thesis by (simp add: bit_and_iff bit_mask_iff)
  qed
  have "\<not> bit v 6" using *[of 6] by auto
  moreover have "\<not> bit v 7" using *[of 7] by auto
  ultimately show ?thesis by simp
qed

lemma byte3: "(3::byte) = mask 2" by (simp add: mask_eq_exp_minus_1)
lemma byte252: "(252::byte) = NOT (mask 2)" by (simp add: mask_eq_exp_minus_1)

lemma byte_bit_hi [simp]: "8 \<le> n \<Longrightarrow> \<not> bit (x::byte) n"
  using bit_imp_le_length[of x n] by auto

lemma byte_eqI: "(\<And>n. n < 8 \<Longrightarrow> bit (a::byte) n = bit b n) \<Longrightarrow> a = b"
  by (rule bit_word_eqI) simp

lemma hi_get_set: "(v::byte) \<le> 63 \<Longrightarrow> drop_bit 2 ((b AND 3) XOR push_bit 2 v) = v"
  apply (rule byte_eqI)
  apply (drule le63_bit)
  apply (erule lt8_cases)
  apply (simp_all add: bit_simps byte3)
  done

lemma hi_set_low: "((b AND 3) XOR push_bit 2 (v::byte)) AND NOT 252 = b AND NOT 252"
  apply (rule byte_eqI)
  apply (erule lt8_cases)
  apply (simp_all add: bit_simps byte3 byte252)
  done

lemma low_set_hi4: "(v::byte) \<le> 63 \<Longrightarrow> drop_bit 2 ((x AND 252) XOR drop_bit 4 v) = drop_bit 2 x"
  apply (rule byte_eqI)
  apply (drule le63_bit)
  apply (erule lt8_cases)
  apply (simp_all add: bit_simps byte3 byte252)
  done

lemma low_set_hi: "drop_bit 2 ((x AND 252) XOR (w AND 3)) = drop_bit 2 (x::byte)"
  apply (rule byte_eqI)
  apply (erule lt8_cases)
  apply (simp_all add: bit_simps byte3 byte252)
  done

lemma low_set_low4: "(v::byte) \<le> 63 \<Longrightarrow> ((x AND 252) XOR drop_bit 4 v) AND NOT 252 = drop_bit 4 v"
  apply (rule byte_eqI)
  apply (drule le63_bit)
  apply (erule lt8_cases)
  apply (simp_all add: bit_simps byte3 byte252)
  done

lemma low_set_low: "((x AND 252) XOR (w AND 3)) AND NOT 252 = (w AND 3::byte)"
  apply (rule byte_eqI)
  apply (erule lt8_cases)
  apply (simp_all add: bit_simps byte3 byte252)
  done

lemma reassemble: "(v::byte) \<le> 63 \<Longrightarrow> push_bit 4 (drop_bit 4 v) XOR push_bit 2 (drop_bit 2 v AND 3) XOR (v AND 3) = v"
  apply (rule byte_eqI)
  apply (drule le63_bit)
  apply (erule lt8_cases)
  apply (simp_all add: bit_simps byte3 byte252)
  done

lemma nat_and3: "(idx::nat) AND 3 = idx mod 4"
  using take_bit_eq_mask[of 2 idx] by (simp add: take_bit_eq_mod mask_eq_exp_minus_1)

lemma nat_drop2: "drop_bit 2 (idx::nat) = idx div 4"
  by (simp add: drop_bit_eq_div)

lemma Dense_m_alt: "Dense_m h = 4 * (length h div 3)"
  by (simp add: Dense_m_def push_bit_eq_mult)

lemma grp_bound: "i < Dense_m h \<Longrightarrow> i div 4 * 3 + 2 < length h"
proof -
  assume "i < Dense_m h"
  then have "i div 4 < length h div 3" by (simp add: Dense_m_alt)
  then have "Suc (i div 4) * 3 \<le> length h div 3 * 3" by (simp only: Suc_le_eq[symmetric] mult_le_mono1)
  also have "\<dots> \<le> length h" by simp
  finally show ?thesis by simp
qed

lemma Dense_set_Some:
  assumes "i < Dense_m h"
  shows "\<exists>h'. Dense_set h i v = Some h' \<and> length h' = length h"
proof -
  from assms have b: "i div 4 * 3 + 2 < length h" by (rule grp_bound)
  show ?thesis
  proof (cases "i mod 4 = 3")
    case True
    with b show ?thesis by (simp add: Dense_set_def Let_def nat_and3 nat_drop2)
  next
    case False
    then have "i mod 4 < 3" by arith
    with b have b': "i div 4 * 3 + i mod 4 < length h" by arith
    with False show ?thesis by (simp add: Dense_set_def Let_def nat_and3 nat_drop2)
  qed
qed

lemma Dense_get_alt:
  "Dense_get h j =
     (if j mod 4 \<noteq> 3 then
        (if j div 4 * 3 + j mod 4 < length h then Some (drop_bit 2 (h ! (j div 4 * 3 + j mod 4))) else None)
      else if j div 4 * 3 + 2 < length h then
        Some (push_bit 4 (h ! (j div 4 * 3) AND NOT 252) XOR push_bit 2 (h ! (j div 4 * 3 + 1) AND NOT 252)
              XOR (h ! (j div 4 * 3 + 2) AND NOT 252))
      else None)"
  by (simp only: Dense_get_def Let_def nat_and3 nat_drop2)

lemma Dense_set_alt:
  "Dense_set h i v =
     (if i mod 4 \<noteq> 3 then
        (if i div 4 * 3 + i mod 4 < length h
         then Some (h[i div 4 * 3 + i mod 4 := (h ! (i div 4 * 3 + i mod 4) AND 3) XOR push_bit 2 v])
         else None)
      else if i div 4 * 3 + 2 < length h then
        Some (h[i div 4 * 3 := (h ! (i div 4 * 3) AND 252) XOR drop_bit 4 v,
                i div 4 * 3 + 1 := (h ! (i div 4 * 3 + 1) AND 252) XOR (drop_bit 2 v AND 3),
                i div 4 * 3 + 2 := (h ! (i div 4 * 3 + 2) AND 252) XOR (v AND 3)])
      else None)"
  by (simp only: Dense_set_def Let_def nat_and3 nat_drop2)

lemma Dense_get_set_same:
  assumes "i < Dense_m h" "v \<le> 63" "Dense_set h i v = Some h'"
  shows "Dense_get h' i = Some v"
proof -
  from assms(1) have b: "i div 4 * 3 + 2 < length h" by (rule grp_bound)
  show ?thesis
  proof (cases "i mod 4 = 3")
    case True
    with b assms(3) have h': "h' = h[i div 4 * 3 := (h ! (i div 4 * 3) AND 252) XOR drop_bit 4 v,
                       i div 4 * 3 + 1 := (h ! (i div 4 * 3 + 1) AND 252) XOR (drop_bit 2 v AND 3),
                       i div 4 * 3 + 2 := (h ! (i div 4 * 3 + 2) AND 252) XOR (v AND 3)]"
      by (simp add: Dense_set_alt)
    have "Dense_get h' i = Some (push_bit 4 (h' ! (i div 4 * 3) AND NOT 252) XOR push_bit 2 (h' ! (i div 4 * 3 + 1) AND NOT 252)
              XOR (h' ! (i div 4 * 3 + 2) AND NOT 252))"
      using True b by (simp add: Dense_get_alt h')
    also have "h' ! (i div 4 * 3) = (h ! (i div 4 * 3) AND 252) XOR drop_bit 4 v"
      using b by (simp add: h')
    also have "h' ! (i div 4 * 3 + 1) = (h ! (i div 4 * 3 + 1) AND 252) XOR (drop_bit 2 v AND 3)"
      using b by (simp add: h')
    also have "h' ! (i div 4 * 3 + 2) = (h ! (i div 4 * 3 + 2) AND 252) XOR (v AND 3)"
      using b by (simp add: h')
    finally show ?thesis using assms(2)
      by (simp only: low_set_low4 low_set_low reassemble)
  next
    case False
    then have "i mod 4 < 3" by arith
    with b have b': "i div 4 * 3 + i mod 4 < length h" by arith
    with False assms(3) have h': "h' = h[i div 4 * 3 + i mod 4 := (h ! (i div 4 * 3 + i mod 4) AND 3) XOR push_bit 2 v]"
      by (simp add: Dense_set_alt)
    have "Dense_get h' i = Some (drop_bit 2 (h' ! (i div 4 * 3 + i mod 4)))"
      using False b' by (simp add: Dense_get_alt h')
    also have "h' ! (i div 4 * 3 + i mod 4) = (h ! (i div 4 * 3 + i mod 4) AND 3) XOR push_bit 2 v"
      using b' by (simp add: h')
    finally show ?thesis using assms(2)
      by (simp only: hi_get_set)
  qed
qed

lemma Dense_set_hi_frame:
  assumes "Dense_set h i v = Some h'" "i mod 4 \<noteq> 3"
  shows "length h' = length h"
    and "h' ! k AND NOT 252 = h ! k AND NOT 252"
    and "k \<noteq> i div 4 * 3 + i mod 4 \<Longrightarrow> h' ! k = h ! k"
proof -
  from assms have b: "i div 4 * 3 + i mod 4 < length h"
    and h': "h' = h[i div 4 * 3 + i mod 4 := (h ! (i div 4 * 3 + i mod 4) AND 3) XOR push_bit 2 v]"
    by (auto simp: Dense_set_alt split: if_splits)
  show "length h' = length h" by (simp add: h')
  show "h' ! k AND NOT 252 = h ! k AND NOT 252"
  proof (cases "k = i div 4 * 3 + i mod 4")
    case True
    with b have "h' ! k = (h ! k AND 3) XOR push_bit 2 v" by (simp add: h')
    then show ?thesis by (simp only: hi_set_low)
  next
    case False
    then show ?thesis by (simp add: h')
  qed
  show "k \<noteq> i div 4 * 3 + i mod 4 \<Longrightarrow> h' ! k = h ! k" by (simp add: h')
qed

lemma Dense_set_lo_frame:
  assumes "Dense_set h i v = Some h'" "i mod 4 = 3" "v \<le> 63"
  shows "length h' = length h"
    and "drop_bit 2 (h' ! k) = drop_bit 2 (h ! k)"
    and "k div 3 \<noteq> i div 4 \<Longrightarrow> h' ! k = h ! k"
proof -
  let ?b = "i div 4 * 3"
  from assms have b: "?b + 2 < length h"
    and h': "h' = h[?b := (h ! ?b AND 252) XOR drop_bit 4 v,
                ?b + 1 := (h ! (?b + 1) AND 252) XOR (drop_bit 2 v AND 3),
                ?b + 2 := (h ! (?b + 2) AND 252) XOR (v AND 3)]"
    by (auto simp: Dense_set_alt split: if_splits)
  show "length h' = length h" by (simp add: h')
  consider "k = ?b" | "k = ?b + 1" | "k = ?b + 2" | "k \<noteq> ?b" "k \<noteq> ?b + 1" "k \<noteq> ?b + 2"
    by blast
  then show "drop_bit 2 (h' ! k) = drop_bit 2 (h ! k)"
  proof cases
    case 1
    with b have "h' ! k = (h ! k AND 252) XOR drop_bit 4 v" by (simp add: h')
    then show ?thesis using assms(3) by (simp only: low_set_hi4)
  next
    case 2
    with b have "h' ! k = (h ! k AND 252) XOR (drop_bit 2 v AND 3)" by (simp add: h')
    then show ?thesis by (simp only: low_set_hi)
  next
    case 3
    with b have "h' ! k = (h ! k AND 252) XOR (v AND 3)" by (simp add: h')
    then show ?thesis by (simp only: low_set_hi)
  next
    case 4
    then show ?thesis by (simp add: h')
  qed
  show "h' ! k = h ! k" if "k div 3 \<noteq> i div 4"
  proof -
    from that have "k \<noteq> ?b" "k \<noteq> ?b + 1" "k \<noteq> ?b + 2" by auto
    then show ?thesis by (simp add: h')
  qed
qed

lemma Dense_get_hi:
  "j mod 4 \<noteq> 3 \<Longrightarrow> Dense_get h j =
     (if j div 4 * 3 + j mod 4 < length h then Some (drop_bit 2 (h ! (j div 4 * 3 + j mod 4))) else None)"
  by (simp only: Dense_get_alt if_True simp_thms)

lemma Dense_get_lo:
  "j mod 4 = 3 \<Longrightarrow> Dense_get h j =
     (if j div 4 * 3 + 2 < length h then
        Some (push_bit 4 (h ! (j div 4 * 3) AND NOT 252) XOR push_bit 2 (h ! (j div 4 * 3 + 1) AND NOT 252)
              XOR (h ! (j div 4 * 3 + 2) AND NOT 252))
      else None)"
  by (simp only: Dense_get_alt if_False simp_thms)


lemma divmod4_neq:
  assumes "j mod 4 = i mod 4" "j \<noteq> i"
  shows "j div 4 \<noteq> i div (4::nat)"
proof
  assume "j div 4 = i div 4"
  with assms(1) have "j div 4 * 4 + j mod 4 = i div 4 * 4 + i mod 4" by simp
  then have "j = i" by (simp only: div_mult_mod_eq)
  with assms(2) show False by simp
qed

lemma slot_index_inj:
  assumes "j mod 4 \<noteq> 3" "i mod 4 \<noteq> 3" "j \<noteq> i"
  shows "j div 4 * 3 + j mod 4 \<noteq> i div 4 * 3 + i mod (4::nat)"
proof
  assume e: "j div 4 * 3 + j mod 4 = i div 4 * 3 + i mod 4"
  have lj: "j mod 4 < 3" using assms(1) mod_less_divisor[of 4 j] by linarith
  have li: "i mod 4 < 3" using assms(2) mod_less_divisor[of 4 i] by linarith
  from e have "(j div 4 * 3 + j mod 4) div 3 = (i div 4 * 3 + i mod 4) div 3" by simp
  with lj li have d: "j div 4 = i div 4" by simp
  with e have "j mod 4 = i mod 4" by simp
  with d assms(3) show False using divmod4_neq by blast
qed


lemma Dense_get_set_other:
  assumes "Dense_set h i v = Some h'" "v \<le> 63" "j \<noteq> i"
  shows "Dense_get h' j = Dense_get h j"
proof (cases "i mod 4 = 3")
  case True
  note lo = Dense_set_lo_frame[OF assms(1) True assms(2)]
  show ?thesis
  proof (cases "j mod 4 = 3")
    case j3: True
    with True assms(3) have ne: "j div 4 \<noteq> i div 4" by (simp add: divmod4_neq)
    have e0: "h' ! (j div 4 * 3) = h ! (j div 4 * 3)"
      by (rule lo(3)) (use ne in simp)
    have e1: "h' ! (j div 4 * 3 + 1) = h ! (j div 4 * 3 + 1)"
      by (rule lo(3)) (use ne in simp)
    have e2: "h' ! (j div 4 * 3 + 2) = h ! (j div 4 * 3 + 2)"
      by (rule lo(3)) (use ne in simp)
    show ?thesis by (simp only: Dense_get_lo[OF j3] lo(1) e0 e1 e2)
  next
    case False
    show ?thesis by (simp only: Dense_get_hi[OF False] lo(1) lo(2))
  qed
next
  case False
  note hi = Dense_set_hi_frame[OF assms(1) False]
  show ?thesis
  proof (cases "j mod 4 = 3")
    case True
    show ?thesis by (simp only: Dense_get_lo[OF True] hi(1) hi(2))
  next
    case j3: False
    have "j div 4 * 3 + j mod 4 \<noteq> i div 4 * 3 + i mod 4"
      using j3 False assms(3) by (rule slot_index_inj)
    then have "h' ! (j div 4 * 3 + j mod 4) = h ! (j div 4 * 3 + j mod 4)" by (rule hi(3))
    then show ?thesis by (simp only: Dense_get_hi[OF j3] hi(1))
  qed
qed

text \<open>
  Claim C10. For a register index \<open>i < m\<close> and a value \<open>v \<le> 63\<close>, \<open>Dense.set\<close> does not
  panic, keeps the length, a following \<open>Dense.get\<close> of \<open>i\<close> returns \<open>v\<close>, and \<open>Dense.get\<close> of
  every other index returns what it returned before (whichever of the four slots of a
  three-byte group the two indices fall in).
\<close>

theorem Dense_set_frame_and_get:
  assumes "i < Dense_m h" and "v \<le> 63"
  shows "\<exists>h'. Dense_set h i v = Some h' \<and> length h' = length h \<and> Dense_get h' i = Some v
           \<and> (\<forall>j. j \<noteq> i \<longrightarrow> Dense_get h' j = Dense_get h j)"
proof -
  from Dense_set_Some[OF assms(1)] obtain h' where h': "Dense_set h i v = Some h'" "length h' = length h"
    by blast
  moreover have "Dense_get h' i = Some v" using assms h'(1) by (rule Dense_get_set_same)
  moreover have "\<forall>j. j \<noteq> i \<longrightarrow> Dense_get h' j = Dense_get h j"
    using Dense_get_set_other[OF h'(1) assms(2)] by blast
  ultimately show ?thesis by blast
qed

theorem Dense_set_frame_and_get_witness:
  "(3::nat) < Dense_m [1, 2, 3] \<and> (63::byte) \<le> 63 \<and>
   (\<exists>h'. Dense_set [1, 2, 3] 3 63 = Some h' \<and> length h' = length [1, 2, 3::byte] \<and>
      Dense_get h' 3 = Some 63 \<and> (2::nat) \<noteq> 3 \<and> Dense_get h' 2 = Dense_get [1, 2, 3] 2)"
proof -
  have a: "(3::nat) < Dense_m [1, 2, 3]" by (simp add: Dense_m_def)
  have b: "(63::byte) \<le> 63" by simp
  from Dense_set_frame_and_get[OF a b] obtain h' where
    "Dense_set [1, 2, 3] 3 63 = Some h'" "length h' = length [1, 2, 3::byte]"
    "Dense_get h' 3 = Some 63" "\<forall>j. j \<noteq> 3 \<longrightarrow> Dense_get h' j = Dense_get [1, 2, 3] j"
    by blast
  then show ?thesis using a by auto
qed


lemma and252_push_drop: "(x::byte) AND 252 = push_bit 2 (drop_bit 2 x)"
  apply (rule byte_eqI)
  apply (erule lt8_cases)
  apply (simp_all add: bit_simps byte252)
  done

lemma unat_and252: "unat ((x::byte) AND 252) = 4 * unat (drop_bit 2 x)"
proof -
  have "unat (drop_bit 2 x) < 64"
  proof -
    have "unat x < 256" using unsigned_less[of x, where 'a = nat] by simp
    moreover have "unat (drop_bit 2 x) = unat x div 4"
      by (simp only: unat_drop_bit_eq) (simp add: drop_bit_eq_div)
    ultimately show ?thesis by simp
  qed
  then have "take_bit 8 (4 * unat (drop_bit 2 x)) = 4 * unat (drop_bit 2 x)"
    by (simp add: take_bit_nat_eq_self_iff)
  moreover have "unat (x AND 252) = take_bit 8 (push_bit 2 (unat (drop_bit 2 x)))"
    by (simp only: and252_push_drop unsigned_push_bit_eq) simp
  ultimately show ?thesis
    by (simp add: push_bit_eq_mult mult.commute)
qed

lemma hi_less_iff: "(x::byte) AND 252 > y AND 252 \<longleftrightarrow> drop_bit 2 x > drop_bit 2 y"
  by (simp add: word_less_nat_alt unat_and252)

lemma hi_pick: "drop_bit 2 ((if (x::byte) AND 252 > y AND 252 then x AND 252 else y AND 252) XOR (w AND NOT 252))
   = max (drop_bit 2 x) (drop_bit 2 y)"
proof -
  have *: "drop_bit 2 ((z AND 252) XOR (w AND NOT 252)) = drop_bit 2 z" for z :: byte
    apply (rule byte_eqI)
    apply (erule lt8_cases)
    apply (simp_all add: bit_simps byte252)
    done
  show ?thesis
  proof (cases "y AND 252 < x AND 252")
    case True
    then have "drop_bit 2 y < drop_bit 2 x" by (simp only: hi_less_iff simp_thms)
    then have "max (drop_bit 2 x) (drop_bit 2 y) = drop_bit 2 x" by (simp add: max_def)
    with True show ?thesis by (simp only: if_True *)
  next
    case False
    then have "\<not> drop_bit 2 y < drop_bit 2 x" by (simp only: hi_less_iff simp_thms)
    then have "max (drop_bit 2 x) (drop_bit 2 y) = drop_bit 2 y" by (simp add: max_def)
    with False show ?thesis by (simp only: if_False *)
  qed
qed

lemma lo_pick: "((if (x::byte) AND 252 > y AND 252 then x AND 252 else y AND 252) XOR (w AND NOT 252)) AND NOT 252
   = w AND NOT 252"
proof -
  have *: "((z AND 252) XOR (w AND NOT 252)) AND NOT 252 = w AND NOT 252" for z :: byte
    apply (rule byte_eqI)
    apply (erule lt8_cases)
    apply (simp_all add: bit_simps byte252)
    done
  show ?thesis by (cases "y AND 252 < x AND 252") (simp_all only: if_True if_False *)
qed

lemma merge_group_regs:
  assumes "merge_group (x0, x1, x2) (y0, y1, y2) = (r0, r1, r2)"
  shows "drop_bit 2 r0 = max (drop_bit 2 x0) (drop_bit 2 y0)"
    and "drop_bit 2 r1 = max (drop_bit 2 x1) (drop_bit 2 y1)"
    and "drop_bit 2 r2 = max (drop_bit 2 x2) (drop_bit 2 y2)"
    and "dreg (r0, r1, r2) = max (dreg (x0, x1, x2)) (dreg (y0, y1, y2))"
proof -
  let ?c = "dreg (x0, x1, x2) > dreg (y0, y1, y2)"
  let ?w0 = "if ?c then x0 else y0"
  let ?w1 = "if ?c then x1 else y1"
  let ?w2 = "if ?c then x2 else y2"
  from assms have r: "r0 = (if x0 AND 252 > y0 AND 252 then x0 AND 252 else y0 AND 252) XOR (?w0 AND NOT 252)"
     "r1 = (if x1 AND 252 > y1 AND 252 then x1 AND 252 else y1 AND 252) XOR (?w1 AND NOT 252)"
     "r2 = (if x2 AND 252 > y2 AND 252 then x2 AND 252 else y2 AND 252) XOR (?w2 AND NOT 252)"
    by (simp_all only: merge_group_def dreg_def Let_def prod.case split: if_splits) auto
  show "drop_bit 2 r0 = max (drop_bit 2 x0) (drop_bit 2 y0)" by (simp only: r hi_pick)
  show "drop_bit 2 r1 = max (drop_bit 2 x1) (drop_bit 2 y1)" by (simp only: r hi_pick)
  show "drop_bit 2 r2 = max (drop_bit 2 x2) (drop_bit 2 y2)" by (simp only: r hi_pick)
  have "dreg (r0, r1, r2) = dreg (?w0, ?w1, ?w2)"
    by (simp only: dreg_def prod.case r lo_pick)
  also have "\<dots> = max (dreg (x0, x1, x2)) (dreg (y0, y1, y2))"
    by (cases ?c) (auto simp: max_def)
  finally show "dreg (r0, r1, r2) = max (dreg (x0, x1, x2)) (dreg (y0, y1, y2))" .
qed

lemma Merge_loop_spec:
  assumes "length h = 3 * n" "length g = 3 * n" "a \<le> n"
  shows "\<exists>h'. Merge_loop (3 * a) h g = Some (h', g) \<and> length h' = 3 * n
           \<and> (\<forall>k < 3 * a. h' ! k = h ! k)
           \<and> (\<forall>q. a \<le> q \<and> q < n \<longrightarrow>
                 (h' ! (3 * q), h' ! (3 * q + 1), h' ! (3 * q + 2)) =
                 merge_group (h ! (3 * q), h ! (3 * q + 1), h ! (3 * q + 2))
                             (g ! (3 * q), g ! (3 * q + 1), g ! (3 * q + 2)))"
  using assms
proof (induction "n - a" arbitrary: a h)
  case 0
  then have "\<not> 3 * a < length h" by simp
  then have "Merge_loop (3 * a) h g = Some (h, g)" by (subst Merge_loop.simps) simp
  with 0 show ?case by auto
next
  case (Suc d)
  then have lt: "a < n" by simp
  obtain r0 r1 r2 where r: "merge_group (h ! (3 * a), h ! (3 * a + 1), h ! (3 * a + 2))
                             (g ! (3 * a), g ! (3 * a + 1), g ! (3 * a + 2)) = (r0, r1, r2)"
    by (metis prod_cases3)
  define h1 where "h1 = h[3 * a := r0, 3 * a + 1 := r1, 3 * a + 2 := r2]"
  have step: "Merge_loop (3 * a) h g = Merge_loop (3 * Suc a) h1 g"
    using lt Suc.prems(1,2) r by (subst Merge_loop.simps) (simp add: h1_def add.commute)
  have len1: "length h1 = 3 * n" using Suc.prems(1) by (simp add: h1_def)
  from Suc.hyps(2) have d: "d = n - Suc a" by simp
  from Suc.hyps(1)[OF d len1 Suc.prems(2)] lt
  obtain h' where h': "Merge_loop (3 * Suc a) h1 g = Some (h', g)" "length h' = 3 * n"
      "\<forall>k < 3 * Suc a. h' ! k = h1 ! k"
      "\<forall>q. Suc a \<le> q \<and> q < n \<longrightarrow>
                 (h' ! (3 * q), h' ! (3 * q + 1), h' ! (3 * q + 2)) =
                 merge_group (h1 ! (3 * q), h1 ! (3 * q + 1), h1 ! (3 * q + 2))
                             (g ! (3 * q), g ! (3 * q + 1), g ! (3 * q + 2))"
    by auto
  have lo: "h' ! k = h ! k" if "k < 3 * a" for k
    using that h'(3) by (simp add: h1_def)
  have cur: "(h' ! (3 * a), h' ! (3 * a + 1), h' ! (3 * a + 2)) = (r0, r1, r2)"
    using h'(3) lt Suc.prems(1) by (simp add: h1_def)
  have far: "h1 ! (3 * q + j) = h ! (3 * q + j)" if "Suc a \<le> q" for q j
    using that by (simp add: h1_def)
  have grp: "(h' ! (3 * q), h' ! (3 * q + 1), h' ! (3 * q + 2)) =
                 merge_group (h ! (3 * q), h ! (3 * q + 1), h ! (3 * q + 2))
                             (g ! (3 * q), g ! (3 * q + 1), g ! (3 * q + 2))" if "a \<le> q" "q < n" for q
  proof (cases "q = a")
    case True
    then show ?thesis using cur r by simp
  next
    case False
    with that have q: "Suc a \<le> q" by simp
    from far[OF q, of 0] far[OF q, of 1] far[OF q, of 2] h'(4) q that(2)
    show ?thesis by simp
  qed
  show ?case using step h'(1,2) lo grp by auto
qed

lemma Dense_get_group:
  assumes "length h = 3 * n" "i < 4 * n"
  shows "Dense_get h i = Some
     (if i mod 4 = 0 then drop_bit 2 (h ! (3 * (i div 4)))
      else if i mod 4 = 1 then drop_bit 2 (h ! (3 * (i div 4) + 1))
      else if i mod 4 = 2 then drop_bit 2 (h ! (3 * (i div 4) + 2))
      else dreg (h ! (3 * (i div 4)), h ! (3 * (i div 4) + 1), h ! (3 * (i div 4) + 2)))"
proof -
  from assms have "i div 4 < n" by simp
  then have "Suc (i div 4) * 3 \<le> n * 3" by (simp only: Suc_le_eq[symmetric] mult_le_mono1)
  with assms(1) have b: "i div 4 * 3 + 2 < length h" by simp
  have "i mod 4 < 4" by simp
  then consider "i mod 4 = 0" | "i mod 4 = 1" | "i mod 4 = 2" | "i mod 4 = 3" by linarith
  then show ?thesis
  proof cases
    case 1 with b show ?thesis by (simp add: Dense_get_hi mult.commute)
  next
    case 2 with b show ?thesis by (simp add: Dense_get_hi mult.commute)
  next
    case 3 with b show ?thesis by (simp add: Dense_get_hi mult.commute)
  next
    case 4 with b show ?thesis by (simp add: Dense_get_lo dreg_def mult.commute)
  qed
qed

text \<open>
  Claim C5. For two dense buffers of the same length (a multiple of three bytes),
  \<open>Dense.Merge\<close> returns no error, every register \<open>i < m\<close> of the receiver becomes the maximum
  of its old value and the argument's register \<open>i\<close>, the register scattered over the low bits
  included, and the argument comes back as it went in.
\<close>

theorem Dense_Merge_registers:
  assumes "length h = length g" and "length h mod 3 = 0"
  shows "\<exists>h'. Dense_Merge h g = Some (None, h', g) \<and> length h' = length h \<and>
           (\<forall>i < Dense_m h. \<exists>a b. Dense_get h i = Some a \<and> Dense_get g i = Some b \<and>
                Dense_get h' i = Some (max a b))"
proof -
  define n where "n = length h div 3"
  from assms have len: "length h = 3 * n" "length g = 3 * n" by (auto simp: n_def)
  from Merge_loop_spec[OF len, of 0]
  obtain h' where h': "Merge_loop 0 h g = Some (h', g)" "length h' = 3 * n"
    and grp: "\<And>q. q < n \<Longrightarrow> (h' ! (3 * q), h' ! (3 * q + 1), h' ! (3 * q + 2)) =
                 merge_group (h ! (3 * q), h ! (3 * q + 1), h ! (3 * q + 2))
                             (g ! (3 * q), g ! (3 * q + 1), g ! (3 * q + 2))"
    by auto
  have m: "Dense_m h = 4 * n" by (simp add: Dense_m_alt n_def)
  have reg: "\<exists>a b. Dense_get h i = Some a \<and> Dense_get g i = Some b \<and> Dense_get h' i = Some (max a b)"
    if "i < 4 * n" for i
  proof -
    from that have q: "i div 4 < n" by simp
    note r = merge_group_regs[OF grp[OF q, symmetric]]
    have "i mod 4 < 4" by simp
    then consider "i mod 4 = 0" | "i mod 4 = 1" | "i mod 4 = 2" | "i mod 4 = 3" by linarith
    then show ?thesis
      by cases (use r in \<open>simp_all add: Dense_get_group[OF len(1) that] Dense_get_group[OF len(2) that]
          Dense_get_group[OF h'(2) that]\<close>)
  qed
  have "Dense_Merge h g = Some (None, h', g)"
    using assms(1) h'(1) by (simp add: Dense_Merge_def)
  with h'(2) len(1) m reg show ?thesis by auto
qed

theorem Dense_Merge_registers_witness:
  "length [4, 8, 13::byte] = length [8, 4, 2::byte] \<and> length [4, 8, 13::byte] mod 3 = 0 \<and>
   (3::nat) < Dense_m [4, 8, 13] \<and>
   (\<exists>h' a b. Dense_Merge [4, 8, 13] [8, 4, 2] = Some (None, h', [8, 4, 2]) \<and>
      Dense_get [4, 8, 13] 3 = Some a \<and> Dense_get [8, 4, 2] 3 = Some b \<and>
      Dense_get h' 3 = Some (max a b))"
proof -
  have a: "length [4, 8, 13::byte] = length [8, 4, 2::byte]" by simp
  have b: "length [4, 8, 13::byte] mod 3 = 0" by simp
  have c: "(3::nat) < Dense_m [4, 8, 13]" by (simp add: Dense_m_def)
  from Dense_Merge_registers[OF a b] obtain h' where
    h: "Dense_Merge [4, 8, 13] [8, 4, 2] = Some (None, h', [8, 4, 2])"
    and r: "\<forall>i < Dense_m [4, 8, 13]. \<exists>a b. Dense_get [4, 8, 13] i = Some a \<and>
          Dense_get [8, 4, 2] i = Some b \<and> Dense_get h' i = Some (max a b)"
    by blast
  from r c obtain x y where "Dense_get [4, 8, 13] 3 = Some x" "Dense_get [8, 4, 2] 3 = Some y"
    "Dense_get h' 3 = Some (max x y)" by blast
  with h a b c show ?thesis by blast
qed


lemma byte_and64: "(b::byte) AND push_bit 6 1 \<noteq> 0 \<longleftrightarrow> bit b 6"
proof -
  have "b AND push_bit 6 1 = (if bit b 6 then push_bit 6 1 else 0)"
    apply (rule byte_eqI)
    apply (erule lt8_cases)
    apply (simp_all add: bit_simps)
    done
  then show ?thesis by simp
qed

lemma byte_and128: "(b::byte) AND push_bit 7 1 \<noteq> 0 \<longleftrightarrow> bit b 7"
proof -
  have "b AND push_bit 7 1 = (if bit b 7 then push_bit 7 1 else 0)"
    apply (rule byte_eqI)
    apply (erule lt8_cases)
    apply (simp_all add: bit_simps)
    done
  then show ?thesis by simp
qed

lemma byte_and64_num: "(b::byte) AND 64 \<noteq> 0 \<longleftrightarrow> bit b 6"
  using byte_and64[of b] by simp

lemma byte_and128_num: "(b::byte) AND 128 \<noteq> 0 \<longleftrightarrow> bit b 7"
  using byte_and128[of b] by simp




text \<open>
  Claim C1. The count \<open>V\<close> of the loop is not the number of zero registers. In the dense
  block of twelve bytes whose only non-zero register is register 3 (value 1) all sixteen
  registers are counted although fifteen are zero; where the only non-zero register is
  register 2, fourteen are counted although fifteen are zero.
\<close>

theorem Dense_V_counts_v2_twice:
  "Dense_V [0, 0, 1, 0, 0, 0, 0, 0, 0, 0, 0, 0] = Some 16 \<and>
   zero_registers [0, 0, 1, 0, 0, 0, 0, 0, 0, 0, 0, 0] = 15 \<and>
   Dense_V [0, 0, 4, 0, 0, 0, 0, 0, 0, 0, 0, 0] = Some 14 \<and>
   zero_registers [0, 0, 4, 0, 0, 0, 0, 0, 0, 0, 0, 0] = 15"
proof -
  have "Dense_V [0, 0, 1, 0, 0, 0, 0, 0, 0, 0, 0, 0] = Some 16"
    by (simp add: Dense_V_def EstimateCardinality_loop.simps lookup_def)
  moreover have "zero_registers [0, 0, 1, 0, 0, 0, 0, 0, 0, 0, 0, 0] = 15"
    by (simp add: zero_registers_def Dense_m_def Dense_get_alt upt_rec)
  moreover have "Dense_V [0, 0, 4, 0, 0, 0, 0, 0, 0, 0, 0, 0] = Some 14"
    by (simp add: Dense_V_def EstimateCardinality_loop.simps lookup_def)
  moreover have "zero_registers [0, 0, 4, 0, 0, 0, 0, 0, 0, 0, 0, 0] = 15"
    by (simp add: zero_registers_def Dense_m_def Dense_get_alt upt_rec)
  ultimately show ?thesis by simp
qed


text \<open>
  Claim C9. \<open>HLL.Merge\<close> returns the size-mismatch error, with both buffers as they were,
  when the lengths differ; when they are equal, whatever the modes of the two buffers,
  a call that returns returns \<open>nil\<close> and the argument as it was.
\<close>

theorem HLL_Merge_error_iff:
  "(length h \<noteq> length g \<longrightarrow> HLL_Merge h g = Some (Some SizeMismatch, h, g)) \<and>
   (length h = length g \<longrightarrow>
      (\<forall>e h' g'. HLL_Merge h g = Some (e, h', g') \<longrightarrow> e = None \<and> g' = g))"
  by (auto simp: HLL_Merge_def Let_def split: if_splits Option.bind_splits prod.splits)

theorem HLL_Merge_error_iff_witness:
  "length [1::byte] \<noteq> length ([]::bytes) \<and>
   HLL_Merge [1] [] = Some (Some SizeMismatch, [1], []) \<and>
   length [0, 0, 0, 1, 0, 0, 0, 0, 5, 0, 0, 0, 0, 0, 0, 0, 0, 0, 0, 0 :: byte] =
     length [64, 0, 0, 0, 0, 0, 0, 0, 4, 0, 0, 0, 0, 0, 0, 0, 0, 0, 0, 0 :: byte] \<and>
   (\<exists>h'. HLL_Merge [0, 0, 0, 1, 0, 0, 0, 0, 5, 0, 0, 0, 0, 0, 0, 0, 0, 0, 0, 0]
                     [64, 0, 0, 0, 0, 0, 0, 0, 4, 0, 0, 0, 0, 0, 0, 0, 0, 0, 0, 0] =
          Some (None, h', [64, 0, 0, 0, 0, 0, 0, 0, 4, 0, 0, 0, 0, 0, 0, 0, 0, 0, 0, 0]))"
proof -
  let ?h = "[0, 0, 0, 1, 0, 0, 0, 0, 5, 0, 0, 0, 0, 0, 0, 0, 0, 0, 0, 0 :: byte]"
  let ?g = "[64, 0, 0, 0, 0, 0, 0, 0, 4, 0, 0, 0, 0, 0, 0, 0, 0, 0, 0, 0 :: byte]"
  have a: "length [1::byte] \<noteq> length ([]::bytes)" by simp
  have b: "length ?h = length ?g" by simp
  have "HLL_Merge ?h ?g \<noteq> None" by code_simp
  then obtain e h' g' where r: "HLL_Merge ?h ?g = Some (e, h', g')" by (metis not_None_eq prod_cases3)
  from HLL_Merge_error_iff[of ?h ?g] b r have "e = None" "g' = ?g" by blast+
  with r a b HLL_Merge_error_iff[of "[1]" "[]"] show ?thesis by simp
qed

lemma or128_and64: "((b::byte) OR 128) AND 64 = b AND 64"
proof -
  have "(b OR push_bit 7 1) AND push_bit 6 1 = b AND push_bit 6 1"
    apply (rule byte_eqI)
    apply (erule lt8_cases)
    apply (simp_all add: bit_simps)
    done
  then show ?thesis by simp
qed

lemma IsSparse_window:
  "8 \<le> length h \<Longrightarrow> HLL_IsSparse (take 8 h @ d) = HLL_IsSparse h"
  by (auto simp: HLL_IsSparse_def nth_append)

lemma IsSparse_mark_dirty:
  "HLL_IsSparse (h[0 := h ! 0 OR 128]) = HLL_IsSparse h"
  by (cases h) (simp_all add: HLL_IsSparse_def or128_and64)

lemma IsSparse_put_cache:
  assumes "BigEndian_PutUint64 h w = Some h'" "bit w 62"
  shows "HLL_IsSparse h' = Some False"
proof -
  from assms(1) have len: "8 \<le> length h"
    by (cases "length h < 8") (simp_all add: BigEndian_PutUint64_def)
  then have pos: "0 < length h" by (cases h) simp_all
  from len assms(1) have h': "h' = h[0 := ucast (drop_bit 56 w), 1 := ucast (drop_bit 48 w),
                   2 := ucast (drop_bit 40 w), 3 := ucast (drop_bit 32 w),
                   4 := ucast (drop_bit 24 w), 5 := ucast (drop_bit 16 w),
                   6 := ucast (drop_bit 8 w), 7 := ucast w]"
    by (simp add: BigEndian_PutUint64_def)
  from pos have "h' ! 0 = ucast (drop_bit 56 w)" "h' \<noteq> []"
    by (auto simp: h')
  moreover have "bit (ucast (drop_bit 56 w) :: byte) 6" using assms(2)
    by (simp add: bit_simps)
  ultimately show ?thesis
    by (simp add: HLL_IsSparse_def byte_and64_num)
qed

lemma HLL_Add_dense:
  assumes "h \<noteq> []" "h ! 0 AND 64 \<noteq> 0"
  shows "HLL_Add h x =
     (if length h < 8 then None
      else (case Dense_Add (drop 8 h) x of None \<Rightarrow> None
            | Some (changed, d) \<Rightarrow>
                Some (if changed then (take 8 h @ d)[0 := (take 8 h @ d) ! 0 OR 128] else take 8 h @ d)))"
  using assms by (simp add: HLL_Add_def Let_def split: option.splits)

lemma HLL_Add_stays_dense:
  assumes "HLL_IsSparse h = Some False" "HLL_Add h x = Some h'"
  shows "HLL_IsSparse h' = Some False"
proof -
  from assms(1) have ne: "h \<noteq> []" and d: "h ! 0 AND 64 \<noteq> 0"
    by (auto simp: HLL_IsSparse_def split: if_splits)
  note eq = HLL_Add_dense[OF ne d, of x]
  from assms(2) eq have len: "8 \<le> length h" by (cases "length h < 8") simp_all
  with assms(2) eq obtain changed dd where "Dense_Add (drop 8 h) x = Some (changed, dd)"
    by (cases "Dense_Add (drop 8 h) x") auto
  with assms(2) eq len have
    h': "h' = (if changed then (take 8 h @ dd)[0 := (take 8 h @ dd) ! 0 OR 128] else take 8 h @ dd)"
    by simp
  show ?thesis using assms(1) len
    by (simp add: h' IsSparse_mark_dirty IsSparse_window)
qed

lemma HLL_Merge_dense:
  assumes "h \<noteq> []" "h ! 0 AND 64 \<noteq> 0" "length h = length g"
  shows "HLL_Merge h g =
     (if length h < 8 then None
      else if g ! 0 AND 64 \<noteq> 0 then
        (case Dense_Merge (drop 8 h) (drop 8 g) of None \<Rightarrow> None
         | Some (e, d, g') \<Rightarrow> Some (None, (take 8 h @ d)[0 := (take 8 h @ d) ! 0 OR 128], g))
      else
        (case mergeIntoDense (drop 8 h) g of None \<Rightarrow> None
         | Some d \<Rightarrow> Some (None, (take 8 h @ d)[0 := (take 8 h @ d) ! 0 OR 128], g)))"
  using assms by (simp add: HLL_Merge_def Let_def split: option.splits)

lemma HLL_Merge_stays_dense:
  assumes "HLL_IsSparse h = Some False" "HLL_Merge h g = Some (e, h', g')"
  shows "HLL_IsSparse h' = Some False"
proof -
  from assms(1) have ne: "h \<noteq> []" and d: "h ! 0 AND 64 \<noteq> 0"
    by (auto simp: HLL_IsSparse_def split: if_splits)
  show ?thesis
  proof (cases "length h = length g")
    case False
    with assms show ?thesis by (simp add: HLL_Merge_def)
  next
    case True
    note eq = HLL_Merge_dense[OF ne d True]
    from assms(2) eq have len: "8 \<le> length h" by (cases "length h < 8") simp_all
    have "\<exists>dd. h' = (take 8 h @ dd)[0 := (take 8 h @ dd) ! 0 OR 128]"
    proof (cases "g ! 0 AND 64 \<noteq> 0")
      case gd: True
      with assms(2) eq len obtain r where r: "Dense_Merge (drop 8 h) (drop 8 g) = Some r"
        by (cases "Dense_Merge (drop 8 h) (drop 8 g)") auto
      obtain e1 d1 g1 where "r = (e1, d1, g1)" by (cases r) auto
      with r assms(2) eq len gd show ?thesis by auto
    next
      case gs: False
      with assms(2) eq len obtain d1 where "mergeIntoDense (drop 8 h) g = Some d1"
        by (cases "mergeIntoDense (drop 8 h) g") auto
      with assms(2) eq len gs show ?thesis by auto
    qed
    then obtain dd where h': "h' = (take 8 h @ dd)[0 := (take 8 h @ dd) ! 0 OR 128]"
      by blast
    show ?thesis using assms(1) len
      by (simp add: h' IsSparse_mark_dirty IsSparse_window)
  qed
qed

lemma HLL_EstimateCardinality_dense:
  assumes "h \<noteq> []" "h ! 0 AND 64 \<noteq> 0"
  shows "HLL_EstimateCardinality dense h =
     (if h ! 0 AND 128 = 0 then
        map_option (\<lambda>w. (w AND NOT (push_bit 63 1 + push_bit 62 1), h)) (BigEndian_Uint64 h)
      else if length h < 8 then None
      else (case dense (drop 8 h) of None \<Rightarrow> None
            | Some k \<Rightarrow> if k AND (push_bit 63 1 + push_bit 62 1) \<noteq> 0 then Some (k, h)
                        else map_option (Pair k) (BigEndian_PutUint64 h (k OR push_bit 62 1))))"
  using assms
  by (simp add: HLL_EstimateCardinality_def Let_def map_option_case split: option.splits del: push_bit_of_1)

lemma HLL_EstimateCardinality_stays_dense:
  assumes "HLL_IsSparse h = Some False" "HLL_EstimateCardinality dense h = Some (c, h')"
  shows "HLL_IsSparse h' = Some False"
proof -
  from assms(1) have ne: "h \<noteq> []" and d: "h ! 0 AND 64 \<noteq> 0"
    by (auto simp: HLL_IsSparse_def split: if_splits)
  note eq = HLL_EstimateCardinality_dense[OF ne d, of dense]
  have "h' = h \<or> (\<exists>w. bit w 62 \<and> BigEndian_PutUint64 h w = Some h')"
  proof (cases "h ! 0 AND 128 = 0")
    case True
    with assms(2) eq show ?thesis by auto
  next
    case False
    with assms(2) eq have len: "\<not> length h < 8" by (cases "length h < 8") simp_all
    with False assms(2) eq obtain k where k: "dense (drop 8 h) = Some k"
      by (cases "dense (drop 8 h)") auto
    have b: "bit (k OR push_bit 62 1) 62" by (simp add: bit_simps)
    from assms(2) eq False len k have "h' = h \<or> BigEndian_PutUint64 h (k OR push_bit 62 1) = Some h'"
      by (cases "k AND (push_bit 63 1 + push_bit 62 1) \<noteq> 0") (auto simp del: push_bit_of_1)
    with b show ?thesis by blast
  qed
  then show ?thesis using assms(1) IsSparse_put_cache by blast
qed

text \<open>
  Claim C7, as amended. On a buffer whose mode bit says dense, every operation of the
  public interface other than \<open>Reset\<close> that returns leaves the mode bit dense. \<open>Reset\<close>
  zeroes every byte of the buffer, so that the mode bit says sparse afterwards.
\<close>

theorem dense_stays_dense:
  assumes "HLL_IsSparse h = Some False" and "step dense op h = Some h'"
  shows "(op \<noteq> Reset \<longrightarrow> HLL_IsSparse h' = Some False) \<and>
         (op = Reset \<longrightarrow> h' = replicate (length h) 0 \<and> HLL_IsSparse h' = Some True)"
proof (cases op)
  case (Add x)
  with assms show ?thesis by (auto simp: step_def intro: HLL_Add_stays_dense)
next
  case (Merge g)
  with assms show ?thesis by (auto simp: step_def intro: HLL_Merge_stays_dense)
next
  case EstimateCardinality
  with assms show ?thesis by (auto simp: step_def intro: HLL_EstimateCardinality_stays_dense)
next
  case Reset
  from assms(1) have ne: "h \<noteq> []" by (auto simp: HLL_IsSparse_def split: if_splits)
  from assms(2) Reset have h': "h' = HLL_Reset h" by (simp add: step_def)
  have z: "HLL_Reset h = replicate (length h) 0"
    by (simp add: HLL_Reset_def map_replicate_const)
  have "HLL_IsSparse (replicate (length h) 0) = Some True"
    using ne by (cases h) (simp_all add: HLL_IsSparse_def)
  with Reset h' z show ?thesis by simp
next
  case IsSparse
  with assms show ?thesis by (auto simp: step_def)
next
  case IsValid
  with assms show ?thesis by (auto simp: step_def)
qed

theorem dense_stays_dense_witness:
  "HLL_IsSparse [64, 0, 0, 0, 0, 0, 0, 0, 0, 0, 0, 0, 0, 0, 0, 0, 0, 0, 0, 0] = Some False \<and>
   Add 3 \<noteq> Reset \<and>
   step (\<lambda>d. None) (Add 3) [64, 0, 0, 0, 0, 0, 0, 0, 0, 0, 0, 0, 0, 0, 0, 0, 0, 0, 0, 0] =
     Some [192, 0, 0, 0, 0, 0, 0, 0, 3, 3, 3, 0, 0, 0, 0, 0, 0, 0, 0, 0] \<and>
   HLL_IsSparse [192, 0, 0, 0, 0, 0, 0, 0, 3, 3, 3, 0, 0, 0, 0, 0, 0, 0, 0, 0] = Some False \<and>
   step (\<lambda>d. None) Reset [64, 0, 0, 0, 0, 0, 0, 0, 0, 0, 0, 0, 0, 0, 0, 0, 0, 0, 0, 0] =
     Some (replicate 20 0) \<and>
   HLL_IsSparse (replicate 20 0) = Some True"
proof -
  let ?h = "[64, 0, 0, 0, 0, 0, 0, 0, 0, 0, 0, 0, 0, 0, 0, 0, 0, 0, 0, 0 :: byte]"
  have a: "HLL_IsSparse ?h = Some False" by (simp add: HLL_IsSparse_def)
  have b: "Add 3 \<noteq> Reset" by simp
  have c: "step (\<lambda>d. None) (Add 3) ?h = Some [192, 0, 0, 0, 0, 0, 0, 0, 3, 3, 3, 0, 0, 0, 0, 0, 0, 0, 0, 0]"
    by code_simp
  have d: "step (\<lambda>d. None) Reset ?h = Some (replicate 20 0)"
    by (simp add: step_def HLL_Reset_def numeral_eq_Suc)
  from dense_stays_dense[OF a c] b
  have e: "HLL_IsSparse [192, 0, 0, 0, 0, 0, 0, 0, 3, 3, 3, 0, 0, 0, 0, 0, 0, 0, 0, 0] = Some False"
    by simp
  from dense_stays_dense[OF a d] have f: "HLL_IsSparse (replicate 20 0) = Some True" by blast
  from a b c d e f show ?thesis by (intro conjI)
qed

text \<open>
  Claim C7 as stated fails for \<open>Reset\<close>: it zeroes the buffer, the mode bit with it.
\<close>

theorem Reset_makes_sparse:
  "HLL_IsSparse [64, 0, 0, 0, 0, 0, 0, 0, 0, 0, 0, 0, 0, 0, 0, 0, 0, 0, 0, 0] = Some False \<and>
   step (\<lambda>d. None) Reset [64, 0, 0, 0, 0, 0, 0, 0, 0, 0, 0, 0, 0, 0, 0, 0, 0, 0, 0, 0] =
     Some [0, 0, 0, 0, 0, 0, 0, 0, 0, 0, 0, 0, 0, 0, 0, 0, 0, 0, 0, 0] \<and>
   HLL_IsSparse [0, 0, 0, 0, 0, 0, 0, 0, 0, 0, 0, 0, 0, 0, 0, 0, 0, 0, 0, 0] = Some True"
  by (simp add: HLL_IsSparse_def step_def HLL_Reset_def)


lemma dec64_enc64: "dec64 (enc64 v) = v"
proof (rule bit_word_eqI)
  fix n assume "n < LENGTH(64)"
  then have n: "n < 64" by simp
  consider "n < 8" | "8 \<le> n" "n < 16" | "16 \<le> n" "n < 24" | "24 \<le> n" "n < 32"
    | "32 \<le> n" "n < 40" | "40 \<le> n" "n < 48" | "48 \<le> n" "n < 56" | "56 \<le> n" "n < 64"
    using n by linarith
  then show "bit (dec64 (enc64 v)) n = bit v n"
    by cases (auto simp: dec64_def enc64_def bit_simps)
qed

lemma enc64_inj: "enc64 v = enc64 w \<Longrightarrow> v = w"
  by (metis dec64_enc64)

lemma length_enc64 [simp]: "length (enc64 v) = 8"
  by (simp add: enc64_def)

lemma list8:
  assumes "length w = 8"
  obtains w0 w1 w2 w3 w4 w5 w6 w7 where "w = [w0, w1, w2, w3, w4, w5, w6, w7]"
proof -
  from assms have "length w = Suc (Suc (Suc (Suc (Suc (Suc (Suc (Suc 0)))))))" by simp
  then show ?thesis using that by (auto simp: length_Suc_conv)
qed

lemma update8_eq:
  assumes "off + 8 \<le> length s"
  shows "s[off := a0, off + 1 := a1, off + 2 := a2, off + 3 := a3, off + 4 := a4, off + 5 := a5,
           off + 6 := a6, off + 7 := a7] =
         take off s @ [a0, a1, a2, a3, a4, a5, a6, a7] @ drop (off + 8) s"
proof -
  define pre where "pre = take off s"
  define w where "w = take 8 (drop off s)"
  define post where "post = drop (off + 8) s"
  have "drop (off + 8) s = drop 8 (drop off s)" by (simp add: add.commute)
  then have s: "s = pre @ w @ post"
    by (simp only: pre_def w_def post_def append_take_drop_id)
  have l: "length pre = off" "length w = 8" using assms by (simp_all add: pre_def w_def)
  from l(2) obtain w0 w1 w2 w3 w4 w5 w6 w7 where w: "w = [w0, w1, w2, w3, w4, w5, w6, w7]"
    by (rule list8)
  have "(pre @ w @ post)[off := a0, off + 1 := a1, off + 2 := a2, off + 3 := a3, off + 4 := a4,
           off + 5 := a5, off + 6 := a6, off + 7 := a7] = pre @ [a0, a1, a2, a3, a4, a5, a6, a7] @ post"
    using l(1) by (simp add: list_update_append w)
  then show ?thesis by (simp only: flip: s) (simp only: pre_def post_def)
qed

lemma PutUint64_at_eq:
  "off + 8 \<le> length s \<Longrightarrow> PutUint64_at s off v = Some (take off s @ enc64 v @ drop (off + 8) s)"
  by (simp only: PutUint64_at_def enc64_def update8_eq) simp

lemma Uint64_at_eq:
  "off + 8 \<le> length s \<Longrightarrow> Uint64_at s off = Some (dec64 (take 8 (drop off s)))"
  by (simp add: Uint64_at_def dec64_def add.commute)


lemma update4_eq:
  assumes "4 \<le> length s"
  shows "s[0 := a0, 1 := a1, 2 := a2, 3 := a3] = [a0, a1, a2, a3] @ drop 4 s"
proof -
  from assms obtain w0 w1 w2 w3 r where "s = w0 # w1 # w2 # w3 # r"
    by (cases s; cases "tl s"; cases "tl (tl s)"; cases "tl (tl (tl s))") auto
  then show ?thesis by simp
qed

lemma be32_roundtrip:
  "(ucast (ucast v :: byte) OR push_bit 8 (ucast (ucast (drop_bit 8 v) :: byte))
     OR push_bit 16 (ucast (ucast (drop_bit 16 v) :: byte))
     OR push_bit 24 (ucast (ucast (drop_bit 24 v) :: byte))) = (v :: 32 word)" (is "?w = v")
proof (rule bit_word_eqI)
  fix n assume "n < LENGTH(32)"
  then have n: "n < 32" by simp
  consider "n < 8" | "8 \<le> n" "n < 16" | "16 \<le> n" "n < 24" | "24 \<le> n" "n < 32"
    using n by linarith
  then show "bit ?w n = bit v n"
    by cases (auto simp: bit_simps)
qed

lemma setSize_eq:
  "4 \<le> length s \<Longrightarrow> sparse_setSize s w =
     Some ([ucast (drop_bit 24 w), ucast (drop_bit 16 w), ucast (drop_bit 8 w), ucast w] @ drop 4 s)"
  by (simp only: sparse_setSize_def BigEndian_PutUint32_def update4_eq) simp

lemma size_after_setSize:
  "sparse_size ([ucast (drop_bit 24 w), ucast (drop_bit 16 w), ucast (drop_bit 8 w), ucast w] @ r)
     = Some (w AND NOT (push_bit 31 1))"
  by (simp add: sparse_size_def BigEndian_Uint32_def be32_roundtrip del: push_bit_of_1)

lemma dirty_after_setSize:
  "sparse_dirty ([ucast (drop_bit 24 w), ucast (drop_bit 16 w), ucast (drop_bit 8 w), ucast w] @ r)
     = Some (bit (w :: 32 word) 31)"
  by (simp add: sparse_dirty_def byte_and128_num bit_simps)

lemma mode_after_setSize:
  "HLL_IsSparse ([ucast (drop_bit 24 w), ucast (drop_bit 16 w), ucast (drop_bit 8 w), ucast w] @ r)
     = Some (\<not> bit (w :: 32 word) 30)"
  using byte_and64_num[of "ucast (drop_bit 24 w)"]
  by (auto simp: HLL_IsSparse_def bit_simps)


lemma chunked_simps [simp]:
  "chunked []" "chunked (c # cs) \<longleftrightarrow> length c = 8 \<and> chunked cs"
  by (simp_all add: chunked_def)

lemma length_concat_chunked: "chunked cs \<Longrightarrow> length (concat cs) = 8 * length cs"
  by (induction cs) simp_all

lemma chunk_concat: "chunked cs \<Longrightarrow> i < length cs \<Longrightarrow> chunk (concat cs) i = cs ! i"
proof (induction cs arbitrary: i)
  case Nil
  then show ?case by simp
next
  case (Cons c cs)
  show ?case
  proof (cases i)
    case 0
    with Cons.prems show ?thesis by (simp add: chunk_def)
  next
    case (Suc j)
    with Cons.prems have "chunk (concat cs) j = cs ! j" by (intro Cons.IH) simp_all
    with Suc Cons.prems show ?thesis by (simp add: chunk_def)
  qed
qed

lemma Len_concat: "chunked cs \<Longrightarrow> sortable_Len (concat cs) = length cs"
  by (simp add: sortable_Len_def length_concat_chunked drop_bit_eq_div)

lemma chunks_concat: "chunked cs \<Longrightarrow> chunks (concat cs) = cs"
  by (rule nth_equalityI) (simp_all add: chunks_def Len_concat chunk_concat)

lemma chunked_chunks: "length t = 8 * n \<Longrightarrow> chunked (chunks t)"
  by (auto simp: chunked_def chunks_def list_all_iff chunk_def sortable_Len_def drop_bit_eq_div)

lemma length_chunks: "length (chunks t) = length t div 8"
  by (simp add: chunks_def sortable_Len_def drop_bit_eq_div)

lemma concat_chunks: "length t = 8 * n \<Longrightarrow> concat (chunks t) = t"
proof (induction n arbitrary: t)
  case 0
  then show ?case by (simp add: chunks_def sortable_Len_def)
next
  case (Suc n)
  define c where "c = take 8 t"
  define r where "r = drop 8 t"
  from Suc.prems have t: "t = c @ r" and lc: "length c = 8" and lr: "length r = 8 * n"
    by (simp_all add: c_def r_def)
  have ch: "chunked (c # chunks r)" using lc chunked_chunks[OF lr] by simp
  have "t = concat (c # chunks r)" using t Suc.IH[OF lr] by simp
  then have "chunks t = c # chunks r" using chunks_concat[OF ch] by simp
  then show ?case using t Suc.IH[OF lr] by simp
qed

lemma chunked_sort: "chunked cs \<Longrightarrow> chunked (sort cs)"
  by (simp add: chunked_def list_all_iff)

lemma chunked_remdups_adj: "chunked cs \<Longrightarrow> chunked (remdups_adj cs)"
  by (simp add: chunked_def list_all_iff)

lemma sort_Sort_concat: "chunked cs \<Longrightarrow> sort_Sort (concat cs) = concat (sort cs)"
  by (simp add: sort_Sort_def chunks_concat Len_concat length_concat_chunked)

lemma take_Suc_drop: "i < length s \<Longrightarrow> take (Suc n) (drop i s) = s ! i # take n (drop (Suc i) s)"
  by (simp add: Cons_nth_drop_Suc[symmetric])

lemma Less_loop_lex:
  "i + n \<le> length s \<Longrightarrow> j + n \<le> length s \<Longrightarrow>
   Less_loop s i j n \<longleftrightarrow> take n (drop i s) < take n (drop j s)"
proof (induction n arbitrary: i j)
  case 0
  then show ?case by simp
next
  case (Suc n)
  from Suc.prems have i: "i < length s" and j: "j < length s" by simp_all
  from Suc.prems have "Less_loop s (i + 1) (j + 1) n \<longleftrightarrow> take n (drop (i + 1) s) < take n (drop (j + 1) s)"
    by (intro Suc.IH) simp_all
  then show ?case
    by (auto simp: take_Suc_drop[OF i] take_Suc_drop[OF j] Let_def)
qed

lemma sortable_Less_chunks:
  assumes "i < sortable_Len t" "j < sortable_Len t"
  shows "sortable_Less t i j \<longleftrightarrow> chunk t i < chunk t j"
proof -
  from assms have "8 * i + 8 \<le> length t" "8 * j + 8 \<le> length t"
    by (simp_all add: sortable_Len_def drop_bit_eq_div) 
  then show ?thesis
    by (simp add: sortable_Less_def chunk_def push_bit_eq_mult mult.commute Less_loop_lex)
qed

lemma differ_loop_neq:
  "p + n \<le> length t \<Longrightarrow> i + n \<le> length t \<Longrightarrow>
   differ_loop t p i n \<longleftrightarrow> take n (drop p t) \<noteq> take n (drop i t)"
proof (induction n arbitrary: p i)
  case 0
  then show ?case by simp
next
  case (Suc n)
  from Suc.prems have p: "p < length t" and i: "i < length t" by simp_all
  from Suc.prems have "differ_loop t (p + 1) (i + 1) n \<longleftrightarrow> take n (drop (p + 1) t) \<noteq> take n (drop (i + 1) t)"
    by (intro Suc.IH) simp_all
  then show ?case
    by (auto simp: take_Suc_drop[OF p] take_Suc_drop[OF i])
qed

lemma copy_loop_eq:
  "to + n \<le> j \<Longrightarrow> j + n \<le> length t \<Longrightarrow>
   copy_loop t to j n = (to + n, take to t @ take n (drop j t) @ drop (to + n) t)"
proof (induction n arbitrary: t to j)
  case 0
  then show ?case by simp
next
  case (Suc n)
  let ?t1 = "t[to := t ! j]"
  from Suc.prems have j: "j < length t" and tj: "to < j" and tl: "to < length t" by simp_all
  from Suc.prems have "copy_loop ?t1 (to + 1) (j + 1) n =
      (to + 1 + n, take (to + 1) ?t1 @ take n (drop (j + 1) ?t1) @ drop (to + 1 + n) ?t1)"
    by (intro Suc.IH) simp_all
  moreover have "take (to + 1) ?t1 = take to t @ [t ! j]"
    using tl by (simp add: take_Suc_conv_app_nth)
  moreover have "drop (j + 1) ?t1 = drop (j + 1) t" using tj by simp
  moreover have "drop (to + 1 + n) ?t1 = drop (to + 1 + n) t" by simp
  ultimately show ?case
    by (simp add: take_Suc_drop[OF j])
qed

lemma concat_split_nth:
  assumes "chunked ds" "j < length ds"
  shows "take (8 * j) (concat ds) = concat (take j ds)"
    and "drop (8 * j + 8) (concat ds) = concat (drop (Suc j) ds)"
    and "take 8 (drop (8 * j) (concat ds)) = ds ! j"
proof -
  have ds: "ds = take j ds @ ds ! j # drop (Suc j) ds"
    using assms(2) by (rule id_take_nth_drop)
  have c1: "chunked (take j ds)" using assms(1) by (auto simp: chunked_def list_all_iff dest: in_set_takeD)
  have l1: "length (concat (take j ds)) = 8 * j"
    using length_concat_chunked[OF c1] assms(2) by simp
  have l2: "length (ds ! j) = 8" using assms by (simp add: chunked_def list_all_length)
  have cc: "concat ds = concat (take j ds) @ ds ! j @ concat (drop (Suc j) ds)"
    by (subst ds) simp
  show "take (8 * j) (concat ds) = concat (take j ds)"
    by (subst cc) (simp add: l1)
  show "drop (8 * j + 8) (concat ds) = concat (drop (Suc j) ds)"
    by (subst cc) (simp add: l1 l2)
  show "take 8 (drop (8 * j) (concat ds)) = ds ! j"
    by (subst cc) (simp add: l1 l2)
qed

lemma concat_update:
  assumes "chunked ds" "j < length ds"
  shows "take (8 * j) (concat ds) @ c @ drop (8 * j + 8) (concat ds) = concat (ds[j := c])"
  using assms by (simp add: concat_split_nth upd_conv_take_nth_drop)

lemma chunked_update: "chunked ds \<Longrightarrow> length c = 8 \<Longrightarrow> chunked (ds[j := c])"
  by (auto simp: chunked_def list_all_iff dest: set_update_subset_insert[THEN subsetD])

lemma chunked_nth: "chunked ds \<Longrightarrow> k < length ds \<Longrightarrow> length (ds ! k) = 8"
  by (simp add: chunked_def list_all_length)

lemma dedup_loop_chunks:
  "chunked ds \<Longrightarrow> j \<le> k \<Longrightarrow>
   dedup_loop (8 * k) (8 * j) (concat ds) =
     Some (8 * fst (dedup_chunks k j ds), concat (snd (dedup_chunks k j ds)))"
proof (induction k j ds rule: dedup_chunks.induct)
  case (1 k j ds)
  let ?t = "concat ds"
  have len: "length ?t = 8 * length ds" using "1.prems"(1) by (rule length_concat_chunked)
  show ?case
  proof (cases "k < length ds")
    case False
    then show ?thesis using len
      by (subst dedup_loop.simps, subst (1 2) dedup_chunks.simps) (simp add: algebra_simps)
  next
    case lt: True
    show ?thesis
    proof (cases "k = 0")
      case True
      with lt "1.prems" have "dedup_loop (8 * (k + 1)) (8 * (j + 1)) ?t =
          Some (8 * fst (dedup_chunks (k + 1) (j + 1) ds), concat (snd (dedup_chunks (k + 1) (j + 1) ds)))"
        by (intro "1.IH"(1)) simp_all
      with True lt len show ?thesis
        by (subst dedup_loop.simps, subst (1 2) dedup_chunks.simps) (simp add: algebra_simps)
    next
      case k0: False
      then have km: "k - 1 < length ds" using lt by simp
      have fit: "\<not> length ?t < 8 * k + 8" using lt len by simp
      have d: "differ_loop ?t (8 * k - 8) (8 * k) 8 \<longleftrightarrow> ds ! (k - 1) \<noteq> ds ! k"
      proof -
        have "8 * k - 8 = 8 * (k - 1)" using k0 by simp
        moreover have "8 * (k - 1) + 8 \<le> length ?t" "8 * k + 8 \<le> length ?t" using lt len k0 by simp_all
        ultimately show ?thesis
          using concat_split_nth(3)[OF "1.prems"(1) km] concat_split_nth(3)[OF "1.prems"(1) lt]
          by (simp add: differ_loop_neq)
      qed
      show ?thesis
      proof (cases "ds ! (k - 1) \<noteq> ds ! k")
        case False
        with lt k0 "1.prems" have "dedup_loop (8 * (k + 1)) (8 * j) ?t =
            Some (8 * fst (dedup_chunks (k + 1) j ds), concat (snd (dedup_chunks (k + 1) j ds)))"
          by (intro "1.IH"(4)) simp_all
        with False lt k0 len d show ?thesis
          by (subst dedup_loop.simps, subst (1 2) dedup_chunks.simps) (simp add: algebra_simps)
      next
        case df: True
        show ?thesis
        proof (cases "k = j")
          case True
          with lt k0 df "1.prems" have "dedup_loop (8 * (k + 1)) (8 * (j + 1)) ?t =
              Some (8 * fst (dedup_chunks (k + 1) (j + 1) ds), concat (snd (dedup_chunks (k + 1) (j + 1) ds)))"
            by (intro "1.IH"(2)) simp_all
          with True df lt k0 len d show ?thesis
            by (subst dedup_loop.simps, subst (1 2) dedup_chunks.simps) (simp add: algebra_simps)
        next
          case kj: False
          with "1.prems" have jk: "j < k" by simp
          let ?ds = "ds[j := ds ! k]"
          have ch: "chunked ?ds" using "1.prems"(1) lt by (simp add: chunked_update chunked_nth)
          have cp: "copy_loop ?t (8 * j) (8 * k) 8 = (8 * (j + 1), concat ?ds)"
          proof -
            have "8 * j + 8 \<le> 8 * k" "8 * k + 8 \<le> length ?t" using jk lt len by simp_all
            then have "copy_loop ?t (8 * j) (8 * k) 8 =
                (8 * j + 8, take (8 * j) ?t @ take 8 (drop (8 * k) ?t) @ drop (8 * j + 8) ?t)"
              by (rule copy_loop_eq)
            also have "take 8 (drop (8 * k) ?t) = ds ! k"
              by (rule concat_split_nth(3)[OF "1.prems"(1) lt])
            also have "take (8 * j) ?t @ ds ! k @ drop (8 * j + 8) ?t = concat ?ds"
              using jk lt by (intro concat_update[OF "1.prems"(1)]) simp
            finally show ?thesis by simp
          qed
          from lt k0 df kj jk ch have "dedup_loop (8 * (k + 1)) (8 * (j + 1)) (concat ?ds) =
              Some (8 * fst (dedup_chunks (k + 1) (j + 1) ?ds), concat (snd (dedup_chunks (k + 1) (j + 1) ?ds)))"
            by (intro "1.IH"(3)) simp_all
          with kj df lt k0 len d cp show ?thesis
            by (subst dedup_loop.simps, subst (1 2) dedup_chunks.simps) (simp add: algebra_simps)
        qed
      qed
    qed
  qed
qed

lemma remdups_adj_take_Suc:
  assumes "1 \<le> k" "k < length cs"
  shows "remdups_adj (take (Suc k) cs) =
         remdups_adj (take k cs) @ (if cs ! (k - 1) = cs ! k then [] else [cs ! k])"
proof -
  from assms obtain m where k: "k = Suc m" by (cases k) auto
  with assms have m: "m < length cs" "Suc m < length cs" by simp_all
  have "take (Suc (Suc m)) cs = take m cs @ [cs ! m, cs ! Suc m]"
    using m by (simp add: take_Suc_conv_app_nth)
  moreover have "take (Suc m) cs = take m cs @ [cs ! m]"
    using m by (simp add: take_Suc_conv_app_nth)
  ultimately show ?thesis
    by (simp only: k remdups_adj_append_two diff_Suc_1)
qed

lemma dedup_chunks_inv:
  assumes "length ds = length cs" "1 \<le> k" "k \<le> length cs" "j \<le> k"
    and "take j ds = remdups_adj (take k cs)"
    and "\<And>i. k - 1 \<le> i \<Longrightarrow> i < length cs \<Longrightarrow> ds ! i = cs ! i"
  shows "take (fst (dedup_chunks k j ds)) (snd (dedup_chunks k j ds)) = remdups_adj cs
         \<and> length (snd (dedup_chunks k j ds)) = length cs
         \<and> fst (dedup_chunks k j ds) \<le> length cs"
  using assms
proof (induction "length cs - k" arbitrary: k j ds)
  case 0
  then have "k = length cs" by simp
  with 0 show ?case by (subst (1 2 3 4) dedup_chunks.simps) simp
next
  case (Suc d)
  then have lt: "k < length cs" by simp
  have k0: "k \<noteq> 0" using Suc.prems(2) by simp
  have prev: "ds ! (k - 1) = cs ! (k - 1)" "ds ! k = cs ! k"
    using Suc.prems(6)[of "k - 1"] Suc.prems(6)[of k] lt by simp_all
  have jl: "j < Suc (length ds)" using Suc.prems(1,3,4) by simp
  note step = remdups_adj_take_Suc[OF Suc.prems(2) lt]
  have d: "d = length cs - Suc k" using Suc.hyps(2) by simp
  show ?case
  proof (cases "cs ! (k - 1) = cs ! k")
    case True
    have "take (fst (dedup_chunks (Suc k) j ds)) (snd (dedup_chunks (Suc k) j ds)) = remdups_adj cs
         \<and> length (snd (dedup_chunks (Suc k) j ds)) = length cs
         \<and> fst (dedup_chunks (Suc k) j ds) \<le> length cs"
    proof (rule Suc.hyps(1)[OF d Suc.prems(1)])
      show "1 \<le> Suc k" by simp
      show "Suc k \<le> length cs" using lt by simp
      show "j \<le> Suc k" using Suc.prems(4) by simp
      show "take j ds = remdups_adj (take (Suc k) cs)" using step True Suc.prems(5) by simp
      show "ds ! i = cs ! i" if "Suc k - 1 \<le> i" "i < length cs" for i
        using that Suc.prems(6)[of i] by simp
    qed
    then show ?thesis using True prev lt k0 Suc.prems(1)
      by (subst (1 2 3 4) dedup_chunks.simps) simp
  next
    case False
    show ?thesis
    proof (cases "k = j")
      case True
      have "take (fst (dedup_chunks (Suc k) (Suc j) ds)) (snd (dedup_chunks (Suc k) (Suc j) ds)) = remdups_adj cs
           \<and> length (snd (dedup_chunks (Suc k) (Suc j) ds)) = length cs
           \<and> fst (dedup_chunks (Suc k) (Suc j) ds) \<le> length cs"
      proof (rule Suc.hyps(1)[OF d Suc.prems(1)])
        show "1 \<le> Suc k" by simp
        show "Suc k \<le> length cs" using lt by simp
        show "Suc j \<le> Suc k" using Suc.prems(4) by simp
        have "take (Suc j) ds = take j ds @ [ds ! j]"
          using True lt Suc.prems(1) by (simp add: take_Suc_conv_app_nth)
        then show "take (Suc j) ds = remdups_adj (take (Suc k) cs)"
          using step False Suc.prems(5) prev True by simp
        show "ds ! i = cs ! i" if "Suc k - 1 \<le> i" "i < length cs" for i
          using that Suc.prems(6)[of i] by simp
      qed
      then show ?thesis using True False prev lt k0 Suc.prems(1)
        by (subst (1 2 3 4) dedup_chunks.simps) simp
    next
      case kj: False
      then have jk: "j < k" using Suc.prems(4) by simp
      let ?ds = "ds[j := ds ! k]"
      have "take (fst (dedup_chunks (Suc k) (Suc j) ?ds)) (snd (dedup_chunks (Suc k) (Suc j) ?ds)) = remdups_adj cs
           \<and> length (snd (dedup_chunks (Suc k) (Suc j) ?ds)) = length cs
           \<and> fst (dedup_chunks (Suc k) (Suc j) ?ds) \<le> length cs"
      proof (rule Suc.hyps(1)[OF d])
        show "length ?ds = length cs" using Suc.prems(1) by simp
        show "1 \<le> Suc k" by simp
        show "Suc k \<le> length cs" using lt by simp
        show "Suc j \<le> Suc k" using Suc.prems(4) by simp
        have "take (Suc j) ?ds = take j ds @ [ds ! k]"
          using jk lt Suc.prems(1) by (simp add: take_Suc_conv_app_nth)
        then show "take (Suc j) ?ds = remdups_adj (take (Suc k) cs)"
          using step False Suc.prems(5) prev by simp
        show "?ds ! i = cs ! i" if "Suc k - 1 \<le> i" "i < length cs" for i
          using that Suc.prems(6)[of i] jk by simp
      qed
      then show ?thesis using kj False prev lt k0 Suc.prems(1)
        by (subst (1 2 3 4) dedup_chunks.simps) simp
    qed
  qed
qed

lemma dedup_chunks_remdups_adj:
  "take (fst (dedup_chunks 0 0 cs)) (snd (dedup_chunks 0 0 cs)) = remdups_adj cs
   \<and> length (snd (dedup_chunks 0 0 cs)) = length cs
   \<and> fst (dedup_chunks 0 0 cs) \<le> length cs"
proof (cases cs)
  case Nil
  then show ?thesis by (subst (1 2 3 4) dedup_chunks.simps) simp
next
  case (Cons c cs')
  have "take (fst (dedup_chunks 1 1 cs)) (snd (dedup_chunks 1 1 cs)) = remdups_adj cs
         \<and> length (snd (dedup_chunks 1 1 cs)) = length cs
         \<and> fst (dedup_chunks 1 1 cs) \<le> length cs"
    by (rule dedup_chunks_inv) (simp_all add: Cons)
  then show ?thesis using Cons
    by (subst (1 2 3 4) dedup_chunks.simps) simp
qed


lemma clear_loop_eq: "i \<le> length t \<Longrightarrow> clear_loop i t = take i t @ replicate (length t - i) 0"
proof (induction i t rule: clear_loop.induct)
  case (1 i t)
  show ?case
  proof (cases "i < length t")
    case True
    then have "clear_loop (i + 1) (t[i := 0]) = take (i + 1) (t[i := 0]) @ replicate (length (t[i := 0]) - (i + 1)) 0"
      by (intro "1.IH") simp_all
    also have "take (i + 1) (t[i := 0]) = take i t @ [0]"
      using True by (simp add: take_Suc_conv_app_nth)
    also have "(take i t @ [0]) @ replicate (length (t[i := 0]) - (i + 1)) 0 = take i t @ replicate (length t - i) 0"
      using True by (simp add: replicate_app_Cons_same Suc_diff_Suc flip: replicate_Suc)
    finally show ?thesis using True by (subst clear_loop.simps) simp
  next
    case False
    with "1.prems" show ?thesis by (subst clear_loop.simps) simp
  qed
qed

lemma unat_slot_offset:
  fixes n :: "32 word"
  assumes "8 * unat n + 8 < 2 ^ 32"
  shows "unat (push_bit 3 n) = 8 * unat n" and "unat (push_bit 3 n + 8) = 8 * unat n + 8"
proof -
  from assms have "take_bit 32 (8 * unat n) = 8 * unat n"
    by (simp add: take_bit_nat_eq_self_iff)
  moreover have "unat (push_bit 3 n) = take_bit 32 (push_bit 3 (unat n))"
    by (simp only: unsigned_push_bit_eq) simp
  ultimately show a: "unat (push_bit 3 n) = 8 * unat n"
    by (simp add: push_bit_eq_mult mult.commute)
  have "unat (push_bit 3 n + 8) = (unat (push_bit 3 n) + unat (8 :: 32 word)) mod 2 ^ 32"
    by (simp add: unat_word_ariths)
  with a assms show "unat (push_bit 3 n + 8) = 8 * unat n + 8" by simp
qed

lemma chunked_dedup_chunks: "chunked ds \<Longrightarrow> chunked (snd (dedup_chunks k j ds))"
proof (induction k j ds rule: dedup_chunks.induct)
  case (1 k j ds)
  show ?case
  proof (cases "k < length ds")
    case False
    with "1.prems" show ?thesis by (subst dedup_chunks.simps) simp
  next
    case True
    then have "chunked (ds[j := ds ! k])"
      using "1.prems" by (simp add: chunked_update chunked_nth)
    with True "1.IH" "1.prems" show ?thesis
      by (subst dedup_chunks.simps) auto
  qed
qed

lemma take_concat_chunked: "chunked ds \<Longrightarrow> take (8 * j) (concat ds) = concat (take j ds)"
proof (induction ds arbitrary: j)
  case Nil
  then show ?case by simp
next
  case (Cons c ds)
  then show ?case by (cases j) simp_all
qed

lemma stored_eq:
  "sparse_size s = Some n \<Longrightarrow> stored s = chunks (take (8 * unat n) (drop 8 s))"
  by (simp add: stored_def)

lemma stored_props:
  assumes "sparse_size s = Some n" "8 + 8 * unat n \<le> length s"
  shows "chunked (stored s)" "length (stored s) = unat n"
    and "concat (stored s) = take (8 * unat n) (drop 8 s)"
proof -
  have l: "length (take (8 * unat n) (drop 8 s)) = 8 * unat n" using assms(2) by simp
  show "chunked (stored s)" using chunked_chunks[OF l] assms(1) by (simp add: stored_eq)
  show "length (stored s) = unat n" using l assms(1) by (simp add: stored_eq length_chunks)
  show "concat (stored s) = take (8 * unat n) (drop 8 s)"
    using concat_chunks[OF l] assms(1) by (simp add: stored_eq)
qed

lemma length_be32 [simp]: "length (be32 w) = 4"
  by (simp add: be32_def)

lemma sparse_sort_eq:
  assumes sz: "sparse_size s = Some n" and fit: "8 + 8 * unat n \<le> length s"
    and small: "length s < 2 ^ 32"
  shows "sparse_sort s =
     Some (be32 (of_nat (length (remdups_adj (sort (stored s))))) @ take 4 (drop 4 s) @
           concat (remdups_adj (sort (stored s))) @
           replicate (8 * (unat n - length (remdups_adj (sort (stored s))))) 0 @
           drop (8 + 8 * unat n) s)"
proof -
  define N where "N = unat n"
  define cs where "cs = stored s"
  define rs where "rs = remdups_adj (sort cs)"
  define j where "j = fst (dedup_chunks 0 0 (sort cs))"
  define ds where "ds = snd (dedup_chunks 0 0 (sort cs))"
  define t2 where "t2 = concat ds"
  note sp = stored_props[OF sz fit, folded cs_def N_def]
  have e: "unat (push_bit 3 n + 8) = 8 * N + 8"
    using fit small unfolding N_def by (intro unat_slot_offset) simp
  have t0: "take (8 * N + 8 - 8) (drop 8 s) = concat cs" using sp(3) by simp
  have srt: "sort_Sort (concat cs) = concat (sort cs)"
    using sp(1) by (rule sort_Sort_concat)
  have chs: "chunked (sort cs)" using sp(1) by (rule chunked_sort)
  have dd: "dedup_loop 0 0 (concat (sort cs)) = Some (8 * j, t2)"
    using dedup_loop_chunks[OF chs, of 0 0] by (simp add: j_def ds_def t2_def)
  from dedup_chunks_remdups_adj[of "sort cs"]
  have tk: "take j ds = rs" and lds: "length ds = N" and jN: "j \<le> N"
    by (simp_all add: j_def ds_def rs_def sp(2))
  have chd: "chunked ds" unfolding ds_def using chs by (rule chunked_dedup_chunks)
  have lt2: "length t2 = 8 * N" using length_concat_chunked[OF chd] lds by (simp add: t2_def)
  have jr: "j = length rs" using tk[symmetric] jN lds by simp
  have tkt: "take (8 * j) t2 = concat rs"
    using take_concat_chunked[OF chd, of j] tk by (simp add: t2_def)
  define s1 where "s1 = take 8 s @ t2 @ drop (8 * N + 8) s"
  have ls1: "length s1 = length s" using fit lt2 by (simp add: s1_def N_def)
  have l4: "4 \<le> length s1" using ls1 fit by simp
  have w: "(of_nat (drop_bit 3 (8 * j)) :: 32 word) = of_nat j" by (simp add: drop_bit_eq_div)
  have set: "sparse_setSize s1 (of_nat (drop_bit 3 (8 * j))) = Some (be32 (of_nat j) @ drop 4 s1)"
    using setSize_eq[OF l4] by (simp add: w be32_def)
  have tk8: "take 8 (be32 (of_nat j :: 32 word) @ drop 4 s1) = be32 (of_nat j) @ take 4 (drop 4 s)"
    using fit by (simp add: s1_def drop_take)
  have dr: "drop (8 * N + 8) (be32 (of_nat j :: 32 word) @ drop 4 s1) = drop (8 * N + 8) s"
    using fit lt2 by (simp add: s1_def N_def)
  have cl: "clear_loop (8 * j) t2 = concat rs @ replicate (8 * (N - j)) 0"
    using jN lt2 tkt by (simp add: clear_loop_eq diff_mult_distrib2)
  have fit': "\<not> (8 * N + 8 < 8 \<or> length s < 8 * N + 8)" using fit by (simp add: N_def)
  have "sparse_sort s = Some (take 8 (be32 (of_nat j :: 32 word) @ drop 4 s1) @ clear_loop (8 * j) t2 @
          drop (8 * N + 8) (be32 (of_nat j :: 32 word) @ drop 4 s1))"
    unfolding sparse_sort_def
    by (simp only: sz e fit' t0 srt dd set s1_def[symmetric] Let_def bind.bind_lunit if_False
        prod.case)
  then show ?thesis
    by (simp only: tk8 dr cl) (simp add: jr rs_def cs_def N_def add.commute)
qed


lemma enc64_dec64:
  assumes "length b = 8"
  shows "enc64 (dec64 b) = b"
proof -
  from assms obtain b0 b1 b2 b3 b4 b5 b6 b7 where b: "b = [b0, b1, b2, b3, b4, b5, b6, b7]"
    by (rule list8)
  define w where "w = dec64 b"
  have bw: "bit w n \<longleftrightarrow>
      (if n < 8 then bit b0 n else if n < 16 then bit b1 (n - 8) else if n < 24 then bit b2 (n - 16)
       else if n < 32 then bit b3 (n - 24) else if n < 40 then bit b4 (n - 32)
       else if n < 48 then bit b5 (n - 40) else if n < 56 then bit b6 (n - 48)
       else n < 64 \<and> bit b7 (n - 56))" for n
    unfolding w_def dec64_def b
    by (auto simp: bit_simps dest: bit_imp_le_length)
  have "ucast w = b0"
    by (rule byte_eqI) (simp add: bit_simps bw)
  moreover have "ucast (drop_bit 8 w) = b1"
    by (rule byte_eqI) (simp add: bit_simps bw)
  moreover have "ucast (drop_bit 16 w) = b2"
    by (rule byte_eqI) (simp add: bit_simps bw)
  moreover have "ucast (drop_bit 24 w) = b3"
    by (rule byte_eqI) (simp add: bit_simps bw)
  moreover have "ucast (drop_bit 32 w) = b4"
    by (rule byte_eqI) (simp add: bit_simps bw)
  moreover have "ucast (drop_bit 40 w) = b5"
    by (rule byte_eqI) (simp add: bit_simps bw)
  moreover have "ucast (drop_bit 48 w) = b6"
    by (rule byte_eqI) (simp add: bit_simps bw)
  moreover have "ucast (drop_bit 56 w) = b7"
    by (rule byte_eqI) (simp add: bit_simps bw)
  ultimately have "enc64 w = [b0, b1, b2, b3, b4, b5, b6, b7]"
    by (simp add: enc64_def)
  then show ?thesis unfolding w_def b .
qed

lemma sorted_distinct_remdups_adj:
  "sorted xs \<Longrightarrow> distinct (remdups_adj xs)"
  by (induction xs rule: remdups_adj.induct) auto

lemma small_word32:
  fixes w :: "32 word"
  assumes "unat w < 2 ^ 29"
  shows "\<not> bit w 30" "\<not> bit w 31" "w AND NOT (push_bit 31 1) = w"
proof -
  from assms have "w < 2 ^ 29" by (simp add: word_less_nat_alt)
  then have e: "w AND mask 29 = w" by (rule less_mask_eq)
  have *: "k < 29" if "bit w k" for k
  proof -
    from that have "bit (w AND mask 29) k" by (simp only: e)
    then show ?thesis by (simp add: bit_and_iff bit_mask_iff)
  qed
  show b30: "\<not> bit w 30" using *[of 30] by auto
  show b31: "\<not> bit w 31" using *[of 31] by auto
  show "w AND NOT (push_bit 31 1) = w"
  proof (rule bit_word_eqI)
    fix k assume kl: "k < LENGTH(32)"
    have "\<not> bit (push_bit 31 (1 :: 32 word)) k" if "k < 29"
      using that by (simp only: bit_push_bit_iff) simp
    then show "bit (w AND NOT (push_bit 31 1)) k = bit w k"
      using *[of k] kl by (simp only: bit_and_iff bit_not_iff possible_bit_word) blast
  qed
qed

lemma unat_of_nat32: "J < 2 ^ 32 \<Longrightarrow> unat (of_nat J :: 32 word) = J"
  by (simp add: unat_of_nat)

lemma sparse_size_be32:
  assumes "J < 2 ^ 29"
  shows "sparse_size (be32 (of_nat J) @ r) = Some (of_nat J)"
proof -
  have "unat (of_nat J :: 32 word) < 2 ^ 29" using assms by (simp add: unat_of_nat)
  from small_word32(3)[OF this] show ?thesis
    by (simp only: be32_def size_after_setSize)
qed

lemma sparse_dirty_be32:
  assumes "J < 2 ^ 29"
  shows "sparse_dirty (be32 (of_nat J) @ r) = Some False"
proof -
  have "unat (of_nat J :: 32 word) < 2 ^ 29" using assms by (simp add: unat_of_nat)
  from small_word32(2)[OF this] show ?thesis
    by (simp only: be32_def dirty_after_setSize)
qed

lemma IsSparse_be32:
  assumes "J < 2 ^ 29"
  shows "HLL_IsSparse (be32 (of_nat J) @ r) = Some True"
proof -
  have "unat (of_nat J :: 32 word) < 2 ^ 29" using assms by (simp add: unat_of_nat)
  from small_word32(1)[OF this] show ?thesis
    by (simp only: be32_def mode_after_setSize) simp
qed

lemma stored_be32:
  assumes "J < 2 ^ 29" "chunked rs" "length rs = J" "length h4 = 4"
  shows "stored (be32 (of_nat J) @ h4 @ concat rs @ r) = rs"
proof -
  have "unat (of_nat J :: 32 word) = J" using assms(1) by (simp add: unat_of_nat)
  moreover have "length (concat rs) = 8 * J"
    using length_concat_chunked[OF assms(2)] assms(3) by simp
  ultimately show ?thesis
    using assms by (simp add: stored_def sparse_size_be32 chunks_concat)
qed

lemma inj_on_dec64: "chunked cs \<Longrightarrow> inj_on dec64 (set cs)"
proof (rule inj_onI)
  fix a b assume ch: "chunked cs" and a: "a \<in> set cs" and b: "b \<in> set cs" and e: "dec64 a = dec64 b"
  from ch a b have "length a = 8" "length b = 8" by (auto simp: chunked_def list_all_iff)
  then have "enc64 (dec64 a) = a" "enc64 (dec64 b) = b" by (simp_all add: enc64_dec64)
  with e show "a = b" by metis
qed

lemma sorted_buffer_zero:
  assumes "length hd8 = 8" "length body = 8 * J" "8 + 8 * J \<le> i" "i < 8 + 8 * J + z"
  shows "(hd8 @ body @ replicate z 0 @ rest) ! i = (0 :: byte)"
proof -
  have "(hd8 @ body @ replicate z 0 @ rest) ! i = (body @ replicate z 0 @ rest) ! (i - 8)"
    using assms(1,3) by (simp add: nth_append)
  also have "\<dots> = (replicate z 0 @ rest) ! (i - 8 - 8 * J)"
  proof -
    have "\<not> i - 8 < length body" using assms(2,3) by linarith
    then show ?thesis by (simp only: nth_append if_False assms(2))
  qed
  also have "\<dots> = replicate z 0 ! (i - 8 - 8 * J)"
  proof -
    have "i - 8 - 8 * J < length (replicate z (0 :: byte))" using assms(3,4) by simp
    then show ?thesis by (simp only: nth_append if_True)
  qed
  also have "\<dots> = 0"
  proof -
    have "i - 8 - 8 * J < z" using assms(3,4) by linarith
    then show ?thesis by (rule nth_replicate)
  qed
  finally show ?thesis .
qed

lemma sparse_sort_props:
  assumes "sparse_size s = Some n" and "8 + 8 * unat n \<le> length s" and "length s < 2 ^ 32"
  shows "\<exists>s'. sparse_sort s = Some s' \<and> length s' = length s
      \<and> sparse_dirty s' = Some False
      \<and> sparse_size s' = Some (of_nat (length (stored s')))
      \<and> length (stored s') = card (set (hashes s))
      \<and> set (hashes s') = set (hashes s)
      \<and> distinct (hashes s')
      \<and> sorted_wrt (<) (stored s')
      \<and> (\<forall>i j. i < j \<and> j < length (stored s') \<longrightarrow>
             sortable_Less (take (8 * length (stored s')) (drop 8 s')) i j)
      \<and> (\<forall>i. 8 + 8 * length (stored s') \<le> i \<and> i < 8 + 8 * unat n \<longrightarrow> s' ! i = 0)
      \<and> take 4 (drop 4 s') = take 4 (drop 4 s)
      \<and> drop (8 + 8 * unat n) s' = drop (8 + 8 * unat n) s
      \<and> HLL_IsSparse s' = Some True"
proof -
  define N where "N = unat n"
  define cs where "cs = stored s"
  define rs where "rs = remdups_adj (sort cs)"
  define J where "J = length rs"
  define rest where "rest = drop (8 + 8 * N) s"
  define s' where "s' = be32 (of_nat J) @ take 4 (drop 4 s) @ concat rs @ replicate (8 * (N - J)) 0 @ rest"
  note sp = stored_props[OF assms(1,2), folded cs_def N_def]
  have srt: "sparse_sort s = Some s'"
    using sparse_sort_eq[OF assms] by (simp add: s'_def rest_def J_def rs_def cs_def N_def)
  have chr: "chunked rs" unfolding rs_def using sp(1) by (intro chunked_remdups_adj chunked_sort)
  have JN: "J \<le> N" using sp(2) by (simp add: J_def rs_def order_trans[OF remdups_adj_length])
  have N29: "N < 2 ^ 29" using assms(2,3) by (simp add: N_def)
  then have J29: "J < 2 ^ 29" using JN by simp
  have lcr: "length (concat rs) = 8 * J" using length_concat_chunked[OF chr] by (simp add: J_def)
  have len: "length s' = length s"
    using assms(2) JN lcr by (simp add: s'_def rest_def N_def)
  have st: "stored s' = rs"
    unfolding s'_def using J29 chr by (intro stored_be32) (use assms(2) in \<open>simp_all add: J_def\<close>)
  have sorted_rs: "sorted rs" by (simp add: rs_def)
  have dist_rs: "distinct rs" unfolding rs_def by (intro sorted_distinct_remdups_adj) simp
  have set_rs: "set rs = set cs" by (simp add: rs_def)
  have strict: "sorted_wrt (<) rs" using sorted_rs dist_rs by (simp add: strict_sorted_iff)
  have inj: "inj_on dec64 (set cs)" using sp(1) by (rule inj_on_dec64)
  have card: "J = card (set (hashes s))"
  proof -
    have "J = card (set rs)" using dist_rs by (simp add: J_def distinct_card)
    also have "\<dots> = card (dec64 ` set cs)" using inj by (simp add: set_rs card_image)
    finally show ?thesis by (simp add: hashes_def cs_def)
  qed
  have dh: "distinct (hashes s')"
    using dist_rs inj by (simp add: hashes_def st distinct_map set_rs)
  have sh: "set (hashes s') = set (hashes s)"
    by (simp add: hashes_def st set_rs cs_def)
  have l8: "length (be32 (of_nat J :: 32 word) @ take 4 (drop 4 s)) = 8"
    using assms(2) by simp
  have s'_alt: "s' = (be32 (of_nat J) @ take 4 (drop 4 s)) @ concat rs @ replicate (8 * (N - J)) 0 @ rest"
    by (simp add: s'_def)
  have win: "take (8 * J) (drop 8 s') = concat rs"
    unfolding s'_alt using lcr l8 by (simp del: append_assoc length_append)
  have less: "sortable_Less (concat rs) i j" if "i < j" "j < J" for i j
  proof -
    from that have ij: "i < sortable_Len (concat rs)" "j < sortable_Len (concat rs)"
      by (simp_all add: Len_concat[OF chr] J_def)
    have "rs ! i < rs ! j" using strict that by (simp add: sorted_wrt_nth_less J_def)
    then show ?thesis using that
      by (simp add: sortable_Less_chunks[OF ij] chunk_concat[OF chr] J_def)
  qed
  have zero: "s' ! i = 0" if "8 + 8 * J \<le> i" "i < 8 + 8 * N" for i
  proof -
    have "i < 8 + 8 * J + 8 * (N - J)" using that JN by simp
    with l8 lcr that(1) show ?thesis unfolding s'_alt by (rule sorted_buffer_zero)
  qed
  have lst: "length (stored s') = J" by (simp add: st J_def)
  have f1: "sparse_dirty s' = Some False" unfolding s'_def using J29 by (rule sparse_dirty_be32)
  have f2: "sparse_size s' = Some (of_nat (length (stored s')))"
    unfolding lst unfolding s'_def using J29 by (rule sparse_size_be32)
  have f3: "length (stored s') = card (set (hashes s))" using card lst by simp
  have f4: "sorted_wrt (<) (stored s')" using strict by (simp only: st)
  have f5: "\<forall>i j. i < j \<and> j < length (stored s') \<longrightarrow>
             sortable_Less (take (8 * length (stored s')) (drop 8 s')) i j"
    using less by (simp only: lst win) blast
  have f6: "\<forall>i. 8 + 8 * length (stored s') \<le> i \<and> i < 8 + 8 * unat n \<longrightarrow> s' ! i = 0"
    using zero by (simp only: lst N_def[symmetric]) blast
  have f7: "take 4 (drop 4 s') = take 4 (drop 4 s)"
    unfolding s'_def using assms(2) by (simp add: length_be32)
  have "drop (8 + 8 * N) s' = rest"
    unfolding s'_alt using l8 lcr JN by (simp del: append_assoc length_append)
  then have f8: "drop (8 + 8 * unat n) s' = drop (8 + 8 * unat n) s"
    by (simp only: rest_def N_def)
  have f9: "HLL_IsSparse s' = Some True" unfolding s'_def using J29 by (rule IsSparse_be32)
  from srt len f1 f2 f3 sh dh f4 f5 f6 f7 f8 f9 show ?thesis by blast
qed

text \<open>
  Claim C6, as amended. When the size field fits the buffer, \<open>sparse.sort\<close> returns; after
  it the stored elements are strictly ascending in the order \<open>sortable.Less\<close> compares them
  in (the lexicographic order of their eight bytes as they lie in memory), the hashes
  they decode to are pairwise different and are the hashes stored before, the size field
  is their number, the bytes freed behind them are zero and the dirty flag is clear.
  Nothing else changes: the header bytes 4 to 7 and the bytes behind the old payload
  are as before, the length is the same and the mode bit still says sparse.
\<close>

theorem sparse_sort_result:
  assumes "sparse_size s = Some n" and "8 + 8 * unat n \<le> length s" and "length s < 2 ^ 32"
  shows "\<exists>s'. sparse_sort s = Some s' \<and> length s' = length s
      \<and> sparse_dirty s' = Some False
      \<and> sparse_size s' = Some (of_nat (length (stored s')))
      \<and> length (stored s') = card (set (hashes s))
      \<and> set (hashes s') = set (hashes s)
      \<and> distinct (hashes s')
      \<and> sorted_wrt (<) (stored s')
      \<and> (\<forall>i j. i < j \<and> j < length (stored s') \<longrightarrow>
             sortable_Less (take (8 * length (stored s')) (drop 8 s')) i j)
      \<and> (\<forall>i. 8 + 8 * length (stored s') \<le> i \<and> i < 8 + 8 * unat n \<longrightarrow> s' ! i = 0)
      \<and> take 4 (drop 4 s') = take 4 (drop 4 s)
      \<and> drop (8 + 8 * unat n) s' = drop (8 + 8 * unat n) s
      \<and> HLL_IsSparse s' = Some True"
  using assms by (rule sparse_sort_props)

theorem sparse_sort_result_witness:
  "sparse_size [128, 0, 0, 3, 0, 0, 0, 0, 1, 0, 0, 0, 0, 0, 0, 0, 0, 1, 0, 0, 0, 0, 0, 0,
                1, 0, 0, 0, 0, 0, 0, 0] = Some 3 \<and>
   8 + 8 * unat (3 :: 32 word) \<le>
     length [128, 0, 0, 3, 0, 0, 0, 0, 1, 0, 0, 0, 0, 0, 0, 0, 0, 1, 0, 0, 0, 0, 0, 0,
             1, 0, 0, 0, 0, 0, 0, 0 :: byte] \<and>
   length [128, 0, 0, 3, 0, 0, 0, 0, 1, 0, 0, 0, 0, 0, 0, 0, 0, 1, 0, 0, 0, 0, 0, 0,
           1, 0, 0, 0, 0, 0, 0, 0 :: byte] < 2 ^ 32 \<and>
   (\<exists>s'. sparse_sort [128, 0, 0, 3, 0, 0, 0, 0, 1, 0, 0, 0, 0, 0, 0, 0, 0, 1, 0, 0, 0, 0, 0, 0,
                       1, 0, 0, 0, 0, 0, 0, 0] = Some s' \<and>
      sparse_dirty s' = Some False \<and> sparse_size s' = Some 2 \<and> length (stored s') = 2 \<and>
      sorted_wrt (<) (stored s') \<and> distinct (hashes s') \<and>
      sortable_Less (take (8 * length (stored s')) (drop 8 s')) 0 1 \<and> s' ! 24 = 0 \<and>
      take 4 (drop 4 s') = [0, 0, 0, 0] \<and> HLL_IsSparse s' = Some True)"
proof -
  let ?s = "[128, 0, 0, 3, 0, 0, 0, 0, 1, 0, 0, 0, 0, 0, 0, 0, 0, 1, 0, 0, 0, 0, 0, 0,
             1, 0, 0, 0, 0, 0, 0, 0 :: byte]"
  have a: "sparse_size ?s = Some 3" by code_simp
  have b: "8 + 8 * unat (3 :: 32 word) \<le> length ?s" by simp
  have c: "length ?s < 2 ^ 32" by simp
  have h: "card (set (hashes ?s)) = 2"
  proof -
    have "hashes ?s = [1, 256, 1]" by code_simp
    moreover have "card (set [1, 256, 1 :: 64 word]) = 2" by code_simp
    ultimately show ?thesis by (simp only:)
  qed
  from sparse_sort_result[OF a b c] obtain s' where s':
    "sparse_sort ?s = Some s'" "sparse_dirty s' = Some False"
    "sparse_size s' = Some (of_nat (length (stored s')))"
    "length (stored s') = card (set (hashes ?s))" "distinct (hashes s')"
    "sorted_wrt (<) (stored s')"
    "\<forall>i j. i < j \<and> j < length (stored s') \<longrightarrow>
       sortable_Less (take (8 * length (stored s')) (drop 8 s')) i j"
    "\<forall>i. 8 + 8 * length (stored s') \<le> i \<and> i < 8 + 8 * unat (3 :: 32 word) \<longrightarrow> s' ! i = 0"
    "take 4 (drop 4 s') = take 4 (drop 4 ?s)" "HLL_IsSparse s' = Some True"
    by blast
  from s'(4) h have l: "length (stored s') = 2" by simp
  from s'(7) l have "sortable_Less (take (8 * length (stored s')) (drop 8 s')) 0 1" by simp
  moreover from s'(8) l have "s' ! 24 = 0" by simp
  moreover from s'(3) l have "sparse_size s' = Some 2" by simp
  moreover from s'(9) have "take 4 (drop 4 s') = [0, 0, 0, 0]" by simp
  ultimately show ?thesis using a b c s'(1,2,5,6,10) l by blast
qed

text \<open>
  Claim C6 as stated fails: the order is not that of the hashes as unsigned 64-bit
  numbers. The hashes 1, 256, 1 are stored as \<open>01 00 ..\<close>, \<open>00 01 ..\<close>, \<open>01 00 ..\<close>; after
  the sort the buffer holds \<open>00 01 ..\<close> before \<open>01 00 ..\<close>, that is 256 before 1.
\<close>

theorem sparse_sort_not_numeric:
  "sparse_sort [128, 0, 0, 3, 0, 0, 0, 0, 1, 0, 0, 0, 0, 0, 0, 0, 0, 1, 0, 0, 0, 0, 0, 0,
                1, 0, 0, 0, 0, 0, 0, 0] =
     Some [0, 0, 0, 2, 0, 0, 0, 0, 0, 1, 0, 0, 0, 0, 0, 0, 1, 0, 0, 0, 0, 0, 0, 0,
           0, 0, 0, 0, 0, 0, 0, 0] \<and>
   hashes [0, 0, 0, 2, 0, 0, 0, 0, 0, 1, 0, 0, 0, 0, 0, 0, 1, 0, 0, 0, 0, 0, 0, 0,
           0, 0, 0, 0, 0, 0, 0, 0] = [256, 1] \<and>
   \<not> sorted_wrt (<) (hashes [0, 0, 0, 2, 0, 0, 0, 0, 0, 1, 0, 0, 0, 0, 0, 0, 1, 0, 0, 0, 0, 0, 0, 0,
           0, 0, 0, 0, 0, 0, 0, 0])"
proof -
  have a: "sparse_sort [128, 0, 0, 3, 0, 0, 0, 0, 1, 0, 0, 0, 0, 0, 0, 0, 0, 1, 0, 0, 0, 0, 0, 0,
                1, 0, 0, 0, 0, 0, 0, 0] =
     Some [0, 0, 0, 2, 0, 0, 0, 0, 0, 1, 0, 0, 0, 0, 0, 0, 1, 0, 0, 0, 0, 0, 0, 0,
           0, 0, 0, 0, 0, 0, 0, 0]" by code_simp
  have b: "hashes [0, 0, 0, 2, 0, 0, 0, 0, 0, 1, 0, 0, 0, 0, 0, 0, 1, 0, 0, 0, 0, 0, 0, 0,
           0, 0, 0, 0, 0, 0, 0, 0] = [256, 1]" by code_simp
  show ?thesis by (simp only: a b) simp
qed
lemma dirty_word32:
  fixes w :: "32 word"
  assumes "unat w < 2 ^ 29"
  shows "(w OR push_bit 31 1) AND NOT (push_bit 31 1) = w"
    and "bit (w OR push_bit 31 1) 31" and "\<not> bit (w OR push_bit 31 1) 30"
proof -
  note sw = small_word32[OF assms]
  have p: "bit (push_bit 31 (1 :: 32 word)) k \<longleftrightarrow> k = 31" for k
    by (simp only: bit_push_bit_iff possible_bit_word) (auto simp: bit_1_iff)
  show "(w OR push_bit 31 1) AND NOT (push_bit 31 1) = w"
  proof (rule bit_word_eqI)
    fix k assume "k < LENGTH(32)"
    then show "bit ((w OR push_bit 31 1) AND NOT (push_bit 31 1)) k = bit w k"
      using sw(2) by (simp only: bit_and_iff bit_or_iff bit_not_iff possible_bit_word p) blast
  qed
  show "bit (w OR push_bit 31 1) 31" by (simp only: bit_or_iff p) simp
  show "\<not> bit (w OR push_bit 31 1) 30" using sw(1) by (simp only: bit_or_iff p) simp
qed

lemma unat_succ32:
  fixes n :: "32 word"
  assumes "unat n + k < 2 ^ 32" "k < 2 ^ 32"
  shows "unat (n + of_nat k) = unat n + k"
  using assms by (simp add: unat_word_ariths unat_of_nat)

lemma unat_len_shift:
  assumes "length s < 2 ^ 32"
  shows "unat (drop_bit 3 (of_nat (length s) :: 32 word)) = length s div 8"
proof -
  have "unat (drop_bit 3 (of_nat (length s) :: 32 word)) = drop_bit 3 (unat (of_nat (length s) :: 32 word))"
    by (simp only: unat_drop_bit_eq)
  also have "\<dots> = length s div 8" using assms by (simp add: unat_of_nat drop_bit_eq_div)
  finally show ?thesis .
qed

lemma append_step:
  assumes "8 * unat n + 16 \<le> length s" "length s < 2 ^ 32"
  shows "PutUint64_at s (unat (push_bit 3 (n + 1))) x =
           Some (take (8 * unat n + 8) s @ enc64 x @ drop (8 * unat n + 16) s)"
    and "sparse_setSize (take (8 * unat n + 8) s @ enc64 x @ drop (8 * unat n + 16) s)
           ((n + 1) OR push_bit 31 1) = Some (appended s n x)"
    and "unat (n + 1) = unat n + 1"
proof -
  have u: "unat (n + 1) = unat n + 1"
    using unat_succ32[of n 1] assms by simp
  then show "unat (n + 1) = unat n + 1" .
  have off: "unat (push_bit 3 (n + 1)) = 8 * unat n + 8"
    using unat_slot_offset(1)[of "n + 1"] assms by (simp add: u)
  have fit: "(8 * unat n + 8) + 8 \<le> length s" using assms(1) by simp
  show "PutUint64_at s (unat (push_bit 3 (n + 1))) x =
           Some (take (8 * unat n + 8) s @ enc64 x @ drop (8 * unat n + 16) s)"
  proof -
    have "8 * unat n + 8 + 8 = 8 * unat n + 16" by simp
    with PutUint64_at_eq[OF fit, of x] show ?thesis by (simp only: off)
  qed
  have "4 \<le> length (take (8 * unat n + 8) s @ enc64 x @ drop (8 * unat n + 16) s)"
    using assms(1) by simp
  from setSize_eq[OF this]
  show "sparse_setSize (take (8 * unat n + 8) s @ enc64 x @ drop (8 * unat n + 16) s)
           ((n + 1) OR push_bit 31 1) = Some (appended s n x)"
    by (simp only: appended_def be32_def)
qed

lemma appended_props:
  assumes "sparse_size s = Some n" "8 * unat n + 16 \<le> length s" "length s < 2 ^ 32"
  shows "length (appended s n x) = length s"
    and "sparse_size (appended s n x) = Some (n + 1)"
    and "sparse_dirty (appended s n x) = Some True"
    and "HLL_IsSparse (appended s n x) = Some True"
    and "stored (appended s n x) = stored s @ [enc64 x]"
proof -
  have u: "unat (n + 1) = unat n + 1" using append_step(3)[OF assms(2,3)] .
  have small: "unat (n + 1) < 2 ^ 29" using assms(2,3) by (simp add: u)
  note dw = dirty_word32[OF small]
  show len: "length (appended s n x) = length s"
    using assms(2) by (simp add: appended_def)
  show sz: "sparse_size (appended s n x) = Some (n + 1)"
    unfolding appended_def be32_def by (simp only: size_after_setSize dw(1))
  show "sparse_dirty (appended s n x) = Some True"
    unfolding appended_def be32_def by (simp only: dirty_after_setSize dw(2))
  show "HLL_IsSparse (appended s n x) = Some True"
    unfolding appended_def be32_def using dw(3) by (simp only: mode_after_setSize) simp
  have fit: "8 + 8 * unat n \<le> length s" using assms(2) by simp
  note sp = stored_props[OF assms(1) fit]
  have d8: "drop 8 (appended s n x) = take (8 * unat n) (drop 8 s) @ enc64 x @ drop (8 * unat n + 16) s"
    using assms(2) by (simp add: appended_def drop_take)
  have "take (8 * unat (n + 1)) (drop 8 (appended s n x)) = concat (stored s @ [enc64 x])"
    using assms(2) by (simp add: d8 u sp(3))
  moreover have "chunked (stored s @ [enc64 x])"
    using sp(1) by (simp add: chunked_def)
  ultimately show "stored (appended s n x) = stored s @ [enc64 x]"
    using chunks_concat[of "stored s @ [enc64 x]"] by (simp only: stored_eq[OF sz])
qed

lemma room_fits:
  assumes "k + 1 < length s div 8"
  shows "8 * k + 16 \<le> length s"
proof -
  from assms have "k + 2 \<le> length s div 8" by simp
  then have "8 * (k + 2) \<le> 8 * (length s div 8)" by (simp only: mult_le_mono2)
  also have "\<dots> \<le> length s" by simp
  finally show ?thesis by simp
qed

lemma sparse_Add_test:
  fixes n :: "32 word"
  assumes "unat n + k < 2 ^ 32" "k < 2 ^ 32" "length s < 2 ^ 32"
  shows "n + of_nat k < drop_bit 3 (of_nat (length s)) \<longleftrightarrow> unat n + k < length s div 8"
  by (simp only: word_less_nat_alt unat_succ32[OF assms(1,2)] unat_len_shift[OF assms(3)])

lemma sparse_Add_room:
  assumes "sparse_size s = Some n" "length s < 2 ^ 32" "unat n + 1 < length s div 8"
  shows "sparse_Add s x = Some (ok, appended s n x)"
proof -
  have fit: "8 * unat n + 16 \<le> length s" using assms(3) by (rule room_fits)
  have t: "n + 1 < drop_bit 3 (of_nat (length s))"
    using sparse_Add_test[of n 1 s] assms(2,3) fit by simp
  show ?thesis
    unfolding sparse_Add_def
    by (simp only: assms(1) Let_def bind.bind_lunit t if_True append_step(1,2)[OF fit assms(2)])
qed

lemma sparse_Add_full_clean:
  assumes "sparse_size s = Some n" "8 + 8 * unat n \<le> length s" "length s < 2 ^ 32"
    and "\<not> unat n + 1 < length s div 8" and "sparse_dirty s = Some False"
  shows "sparse_Add s x = Some (full, s)"
proof -
  have t: "\<not> n + 1 < drop_bit 3 (of_nat (length s))"
    using sparse_Add_test[of n 1 s] assms(2,3,4) by simp
  show ?thesis
    unfolding sparse_Add_def
    by (simp only: assms(1,5) Let_def bind.bind_lunit t if_False not_False_eq_True if_True)
qed

lemma sparse_Add_full_dirty:
  assumes "sparse_size s = Some n" "8 + 8 * unat n \<le> length s" "length s < 2 ^ 32"
    and "\<not> unat n + 1 < length s div 8" and "sparse_dirty s = Some True"
    and "sparse_sort s = Some s'" and "sparse_size s' = Some j" and "length s' = length s"
    and "unat j \<le> unat n"
  shows "sparse_Add s x =
     (if unat j + 100 < length s div 8 then Some (ok, appended s' j x) else Some (full, s'))"
proof -
  have t: "\<not> n + 1 < drop_bit 3 (of_nat (length s))"
    using sparse_Add_test[of n 1 s] assms(2,3,4) by simp
  have t2: "j + 100 < drop_bit 3 (of_nat (length s')) \<longleftrightarrow> unat j + 100 < length s div 8"
    using sparse_Add_test[of j 100 s'] assms(2,3,8,9) by simp
  have eq: "sparse_Add s x =
     (if j + 100 < drop_bit 3 (of_nat (length s')) then do {
           s2 \<leftarrow> PutUint64_at s' (unat (push_bit 3 (j + 1))) x;
           s3 \<leftarrow> sparse_setSize s2 ((j + 1) OR push_bit 31 1);
           Some (ok, s3)
         } else Some (full, s'))"
    unfolding sparse_Add_def
    by (simp only: assms(1,5,6,7) Let_def bind.bind_lunit t if_False not_True_eq_False simp_thms)
  show ?thesis
  proof (cases "unat j + 100 < length s div 8")
    case True
    then have "unat j + 1 < length s' div 8" using assms(8) by simp
    then have fit: "8 * unat j + 16 \<le> length s'" by (rule room_fits)
    have small: "length s' < 2 ^ 32" using assms(3,8) by simp
    show ?thesis
      by (simp only: eq t2 True if_True append_step(1,2)[OF fit small] bind.bind_lunit)
  next
    case False
    then show ?thesis by (simp only: eq t2 if_False)
  qed
qed

lemma capacity_room: "int k < capacity s \<longleftrightarrow> k + 1 < length s div 8"
  unfolding capacity_def by linarith

lemma capacity_slack: "int k \<le> capacity s - 100 \<longleftrightarrow> k + 100 < length s div 8"
  unfolding capacity_def by linarith

lemma sparse_Add_cases:
  assumes "sparse_size s = Some n" and "8 + 8 * unat n \<le> length s" and "length s < 2 ^ 32"
    and "sparse_dirty s = Some d"
  shows "if int (unat n) < capacity s then sparse_Add s x = Some (ok, appended s n x)
         else if \<not> d then sparse_Add s x = Some (full, s)
         else (\<exists>s' j. sparse_sort s = Some s' \<and> sparse_size s' = Some j \<and>
                 unat j = card (set (hashes s)) \<and> length s' = length s \<and>
                 sparse_Add s x = (if int (unat j) \<le> capacity s - 100
                                   then Some (ok, appended s' j x) else Some (full, s')))"
proof (cases "unat n + 1 < length s div 8")
  case True
  then have "int (unat n) < capacity s" by (simp only: capacity_room simp_thms)
  with sparse_Add_room[OF assms(1,3) True] show ?thesis by (simp only: if_True)
next
  case False
  then have nc: "\<not> int (unat n) < capacity s" by (simp only: capacity_room simp_thms)
  show ?thesis
  proof (cases d)
    case False
    with assms(4) have "sparse_dirty s = Some False" by simp
    from sparse_Add_full_clean[OF assms(1-3) \<open>\<not> unat n + 1 < length s div 8\<close> this]
    show ?thesis using nc False by (simp only: if_False if_True simp_thms)
  next
    case True
    with assms(4) have dt: "sparse_dirty s = Some True" by simp
    from sparse_sort_props[OF assms(1-3)] obtain s' where s':
      "sparse_sort s = Some s'" "length s' = length s"
      "sparse_size s' = Some (of_nat (length (stored s')))"
      "length (stored s') = card (set (hashes s))"
      by blast
    define j :: "32 word" where "j = of_nat (length (stored s'))"
    have cn: "card (set (hashes s)) \<le> unat n"
    proof -
      have "card (set (hashes s)) \<le> length (hashes s)" by (rule card_length)
      also have "\<dots> = unat n" using stored_props(2)[OF assms(1,2)] by (simp add: hashes_def)
      finally show ?thesis .
    qed
    have "unat n < 2 ^ 32" using assms(2,3) by simp
    with cn have uj: "unat j = card (set (hashes s))"
      by (simp add: j_def s'(4) unat_of_nat)
    with cn have le: "unat j \<le> unat n" by simp
    have sj: "sparse_size s' = Some j" using s'(3) by (simp add: j_def)
    from sparse_Add_full_dirty[OF assms(1-3) \<open>\<not> unat n + 1 < length s div 8\<close> dt s'(1) sj s'(2) le, of x]
    have "sparse_Add s x = (if int (unat j) \<le> capacity s - 100
                                   then Some (ok, appended s' j x) else Some (full, s'))"
      by (simp only: capacity_slack)
    with s'(1,2) sj uj have "\<exists>s' j. sparse_sort s = Some s' \<and> sparse_size s' = Some j \<and>
                 unat j = card (set (hashes s)) \<and> length s' = length s \<and>
                 sparse_Add s x = (if int (unat j) \<le> capacity s - 100
                                   then Some (ok, appended s' j x) else Some (full, s'))"
      by blast
    with nc True show ?thesis by (simp only: if_False simp_thms)
  qed
qed

text \<open>
  Claim C4, as amended. With \<open>capacity = floor(len/8) - 1\<close>: while fewer than \<open>capacity\<close>
  slots are used \<open>sparse.Add\<close> appends. Otherwise a clean buffer reports "full" at once
  and is left as it is; a dirty one is sorted and stripped of duplicates first, and the
  append is retried exactly when the slots then in use (the number of different hashes
  stored) are at most \<open>capacity - 100\<close>; if not, the result is "full" and the buffer is
  the sorted one.
\<close>

theorem sparse_Add_capacity:
  assumes "sparse_size s = Some n" and "8 + 8 * unat n \<le> length s" and "length s < 2 ^ 32"
    and "sparse_dirty s = Some d"
  shows "if int (unat n) < capacity s then sparse_Add s x = Some (ok, appended s n x)
         else if \<not> d then sparse_Add s x = Some (full, s)
         else (\<exists>s' j. sparse_sort s = Some s' \<and> sparse_size s' = Some j \<and>
                 unat j = card (set (hashes s)) \<and> length s' = length s \<and>
                 sparse_Add s x = (if int (unat j) \<le> capacity s - 100
                                   then Some (ok, appended s' j x) else Some (full, s')))"
  using assms by (rule sparse_Add_cases)

theorem sparse_Add_capacity_witness:
  "sparse_size [128, 0, 0, 3, 0, 0, 0, 0, 1, 0, 0, 0, 0, 0, 0, 0, 0, 1, 0, 0, 0, 0, 0, 0,
                1, 0, 0, 0, 0, 0, 0, 0] = Some 3 \<and>
   8 + 8 * unat (3 :: 32 word) \<le>
     length [128, 0, 0, 3, 0, 0, 0, 0, 1, 0, 0, 0, 0, 0, 0, 0, 0, 1, 0, 0, 0, 0, 0, 0,
             1, 0, 0, 0, 0, 0, 0, 0 :: byte] \<and>
   length [128, 0, 0, 3, 0, 0, 0, 0, 1, 0, 0, 0, 0, 0, 0, 0, 0, 1, 0, 0, 0, 0, 0, 0,
           1, 0, 0, 0, 0, 0, 0, 0 :: byte] < 2 ^ 32 \<and>
   sparse_dirty [128, 0, 0, 3, 0, 0, 0, 0, 1, 0, 0, 0, 0, 0, 0, 0, 0, 1, 0, 0, 0, 0, 0, 0,
                 1, 0, 0, 0, 0, 0, 0, 0] = Some True \<and>
   (\<exists>s'. sparse_sort [128, 0, 0, 3, 0, 0, 0, 0, 1, 0, 0, 0, 0, 0, 0, 0, 0, 1, 0, 0, 0, 0, 0, 0,
                       1, 0, 0, 0, 0, 0, 0, 0] = Some s' \<and>
         sparse_Add [128, 0, 0, 3, 0, 0, 0, 0, 1, 0, 0, 0, 0, 0, 0, 0, 0, 1, 0, 0, 0, 0, 0, 0,
                     1, 0, 0, 0, 0, 0, 0, 0] 7 = Some (full, s'))"
proof -
  let ?s = "[128, 0, 0, 3, 0, 0, 0, 0, 1, 0, 0, 0, 0, 0, 0, 0, 0, 1, 0, 0, 0, 0, 0, 0,
             1, 0, 0, 0, 0, 0, 0, 0 :: byte]"
  have a: "sparse_size ?s = Some 3" by code_simp
  have b: "8 + 8 * unat (3 :: 32 word) \<le> length ?s" by simp
  have c: "length ?s < 2 ^ 32" by simp
  have d: "sparse_dirty ?s = Some True" by code_simp
  have cap: "capacity ?s = 3" by (simp add: capacity_def)
  from sparse_Add_capacity[OF a b c d, of 7] cap
  obtain s' j where "sparse_sort ?s = Some s'"
    "sparse_Add ?s 7 = (if int (unat j) \<le> 3 - 100 then Some (ok, appended s' j 7) else Some (full, s'))"
    by auto
  moreover have "(0::int) \<le> int (unat j)" by (rule of_nat_0_le_iff)
  then have "\<not> int (unat j) \<le> 3 - 100" by linarith
  ultimately have "sparse_sort ?s = Some s' \<and> sparse_Add ?s 7 = Some (full, s')"
    by (simp only: if_False simp_thms)
  with a b c d show ?thesis by blast
qed

lemma P11_full_facts:
  shows "length P11_full = 1544" and "sparse_size P11_full = Some 192"
    and "sparse_dirty P11_full = Some True" and "card (set (hashes P11_full)) = 92"
proof -
  define xs :: "nat list" where "xs = [0..<92] @ replicate 100 91"
  define cs where "cs = map (\<lambda>k. enc64 (of_nat k)) xs"
  have P: "P11_full = be32 (192 OR push_bit 31 1) @ [0, 0, 0, 0] @ concat cs"
    by (simp add: P11_full_def cs_def xs_def)
  have ch: "chunked cs" by (simp add: cs_def chunked_def list_all_iff)
  have lcs: "length cs = 192" by (simp add: cs_def xs_def)
  have lc: "length (concat cs) = 1536" using length_concat_chunked[OF ch] lcs by simp
  show "length P11_full = 1544" by (simp add: P lc)
  have u: "unat (192 :: 32 word) < 2 ^ 29" by simp
  show sz: "sparse_size P11_full = Some 192"
    unfolding P be32_def by (simp only: size_after_setSize dirty_word32(1)[OF u])
  show "sparse_dirty P11_full = Some True"
    unfolding P be32_def by (simp only: dirty_after_setSize dirty_word32(2)[OF u])
  have "take (8 * unat (192 :: 32 word)) (drop 8 P11_full) = concat cs"
    using lc by (simp add: P)
  then have st: "stored P11_full = cs" using chunks_concat[OF ch] by (simp only: stored_eq[OF sz])
  have h: "hashes P11_full = map of_nat xs"
    by (simp add: hashes_def st cs_def dec64_enc64 comp_def)
  have sx: "set xs = {0..<92}" by (auto simp: xs_def)
  have inj: "inj_on (of_nat :: nat \<Rightarrow> 64 word) {0..<92}"
  proof (rule inj_onI)
    fix a b :: nat assume "a \<in> {0..<92}" "b \<in> {0..<92}" and e: "(of_nat a :: 64 word) = of_nat b"
    then have "a < 2 ^ 64" "b < 2 ^ 64" by simp_all
    then have "unat (of_nat a :: 64 word) = a" "unat (of_nat b :: 64 word) = b"
      by (simp_all add: unat_of_nat)
    with e show "a = b" by metis
  qed
  show "card (set (hashes P11_full)) = 92"
    by (simp add: h sx card_image[OF inj])
qed

text \<open>
  Claim C4 as stated fails where the slots in use after the sort are exactly
  \<open>capacity - 100\<close>: they are not fewer than \<open>capacity - 100\<close>, and the append goes ahead.
\<close>

theorem sparse_Add_at_slack_boundary:
  "capacity P11_full = 192 \<and> sparse_size P11_full = Some 192 \<and>
   sparse_dirty P11_full = Some True \<and>
   (\<exists>s' j. sparse_sort P11_full = Some s' \<and> sparse_size s' = Some j \<and>
      int (unat j) = capacity P11_full - 100 \<and> \<not> int (unat j) < capacity P11_full - 100 \<and>
      sparse_Add P11_full 7 = Some (ok, appended s' j 7))"
proof -
  note f = P11_full_facts
  have cap: "capacity P11_full = 192" by (simp add: capacity_def f(1))
  have fit: "8 + 8 * unat (192 :: 32 word) \<le> length P11_full" by (simp add: f(1))
  have small: "length P11_full < 2 ^ 32" by (simp add: f(1))
  have nr: "\<not> int (unat (192 :: 32 word)) < capacity P11_full" by (simp add: cap)
  from sparse_Add_cases[OF f(2) fit small f(3), of 7] nr
  have "\<exists>s' j. sparse_sort P11_full = Some s' \<and> sparse_size s' = Some j \<and>
          unat j = card (set (hashes P11_full)) \<and> length s' = length P11_full \<and>
          sparse_Add P11_full 7 = (if int (unat j) \<le> capacity P11_full - 100
                                   then Some (ok, appended s' j 7) else Some (full, s'))"
    by (simp only: if_False simp_thms)
  then obtain s' j where s': "sparse_sort P11_full = Some s'" "sparse_size s' = Some j"
    "unat j = card (set (hashes P11_full))"
    "sparse_Add P11_full 7 = (if int (unat j) \<le> capacity P11_full - 100
                               then Some (ok, appended s' j 7) else Some (full, s'))"
    by blast
  from s'(3) f(4) have uj: "int (unat j) = 92" by simp
  with s'(4) cap have "sparse_Add P11_full 7 = Some (ok, appended s' j 7)" by simp
  with s'(1,2) uj cap f(2,3) show ?thesis by auto
qed
lemma count_bits_le: "count_bits z \<le> k \<longleftrightarrow> z < 2 ^ k"
proof (induction k arbitrary: z)
  case 0
  show ?case by (subst count_bits.simps) simp
next
  case (Suc k)
  show ?case
  proof (cases "z = 0")
    case True
    then show ?thesis by (subst count_bits.simps) simp
  next
    case False
    have "count_bits z = Suc (count_bits (z div 2))"
      using False by (subst count_bits.simps) (simp add: drop_bit_eq_div)
    then have "count_bits z \<le> Suc k \<longleftrightarrow> z div 2 < 2 ^ k" using Suc.IH[of "z div 2"] by simp
    also have "\<dots> \<longleftrightarrow> z < 2 ^ Suc k" by auto
    finally show ?thesis .
  qed
qed

lemma precision_bound:
  assumes "m < 2 ^ 64" "\<not> (precision_of m < 4 \<or> precision_of m > 25)"
  shows "m < 2 ^ 26"
proof -
  define k where "k = count_bits m"
  have k64: "k \<le> 64" using assms(1) by (simp add: k_def count_bits_le)
  have p: "precision_of m = of_nat k - 1" by (simp add: precision_of_def k_def)
  have k0: "k \<noteq> 0"
  proof
    assume "k = 0"
    then have "precision_of m = 255" by (simp add: p)
    with assms(2) show False by simp
  qed
  then have "(of_nat k - 1 :: byte) = of_nat (k - 1)" by (cases k) simp_all
  moreover have "unat (of_nat (k - 1) :: byte) = k - 1" using k64 by (simp add: unat_of_nat)
  ultimately have u: "unat (precision_of m) = k - 1" by (simp add: p)
  from assms(2) have "precision_of m \<le> 25" by (simp add: not_less)
  then have "unat (precision_of m) \<le> 25" by (simp add: word_le_nat_alt)
  with u k0 have "k \<le> 26" by simp
  then show ?thesis by (simp add: k_def count_bits_le)
qed

lemma valid_length:
  assumes "HLL_IsValid h = None" "length h < 2 ^ 63"
  shows "8 \<le> length h" and "length h < 2 ^ 32"
proof -
  from assms(1) show l8: "8 \<le> length h"
    by (cases "length h < 8") (simp_all add: HLL_IsValid_def)
  from assms(1) l8 have m3: "(length h - 8) mod 3 = 0"
    by (cases "(length h - 8) mod 3 = 0") (simp_all add: HLL_IsValid_def)
  define m where "m = Dense_m (drop 8 h)"
  have m: "m = 4 * ((length h - 8) div 3)" by (simp add: m_def Dense_m_alt)
  have p: "\<not> (precision_of m < 4 \<or> precision_of m > 25)"
  proof
    assume "precision_of m < 4 \<or> precision_of m > 25"
    with assms(1) l8 m3 show False
      by (simp add: HLL_IsValid_def Let_def m_def split: if_splits)
  qed
  have "m < 2 ^ 64" using assms(2) by (simp add: m)
  from precision_bound[OF this p] have "(length h - 8) div 3 < 2 ^ 24" by (simp add: m)
  with m3 show "length h < 2 ^ 32" by (simp add: mod_eq_0_iff_dvd)
qed

lemma sparse_sort_sparse:
  assumes "sparse_size s = Some n" and "8 + 8 * unat n \<le> length s" and "length s < 2 ^ 32"
    and "sparse_sort s = Some s'"
  shows "HLL_IsSparse s' = Some True"
proof -
  define J where "J = length (remdups_adj (sort (stored s)))"
  have "J \<le> length (stored s)" by (simp add: J_def order_trans[OF remdups_adj_length])
  also have "\<dots> = unat n" using stored_props(2)[OF assms(1,2)] .
  finally have "J < 2 ^ 29" using assms(2,3) by simp
  from IsSparse_be32[OF this] sparse_sort_eq[OF assms(1-3)] assms(4) show ?thesis
    by (simp add: J_def)
qed

lemma sparse_ok_fresh:
  assumes "8 \<le> L" "L < 2 ^ 32"
  shows "sparse_ok (replicate L 0)" and "hashes (replicate L 0) = []"
    and "sparse_size (replicate L 0) = Some 0"
proof -
  define r where "r = replicate (L - 4) (0 :: byte)"
  have "replicate L (0 :: byte) = replicate 4 0 @ r"
    using assms(1) by (simp add: r_def replicate_add[symmetric])
  also have "replicate 4 (0 :: byte) = [0, 0, 0, 0]" by (simp add: numeral_eq_Suc)
  finally have r: "replicate L (0 :: byte) = [0, 0, 0, 0] @ r" .
  have "be32 0 = [0, 0, 0, 0]" by (simp add: be32_def)
  then have r': "replicate L (0 :: byte) = be32 (of_nat 0) @ r" using r by simp
  have z: "(0 :: nat) < 2 ^ 29" by simp
  show sz: "sparse_size (replicate L 0) = Some 0"
    using sparse_size_be32[OF z, of r] by (simp only: r' [symmetric]) simp
  have d: "sparse_dirty (replicate L 0) = Some False"
    using sparse_dirty_be32[OF z, of r] by (simp only: r' [symmetric])
  have m: "HLL_IsSparse (replicate L 0) = Some True"
    using IsSparse_be32[OF z, of r] by (simp only: r' [symmetric])
  show h: "hashes (replicate L 0) = []"
    by (simp add: hashes_def stored_eq[OF sz] chunks_def sortable_Len_def)
  show "sparse_ok (replicate L 0)"
    unfolding sparse_ok_def using assms sz d m h by auto
qed

lemma HLL_Add_sparse:
  assumes "h \<noteq> []" "h ! 0 AND 64 = 0"
  shows "HLL_Add h x =
     (case sparse_Add h x of None \<Rightarrow> None
      | Some (r, s) \<Rightarrow>
          if r = ok then Some s
          else (case toDense s of None \<Rightarrow> None
                | Some s' \<Rightarrow> (case Dense_Add (drop 8 s') x of None \<Rightarrow> None
                              | Some (changed, d) \<Rightarrow> Some (take 8 s' @ d))))"
  using assms by (simp add: HLL_Add_def split: option.splits prod.splits)

lemma toDense_dense:
  assumes "toDense s = Some s'"
  shows "HLL_IsSparse (take 8 s' @ d) = Some False"
proof -
  from assms have l: "8 \<le> length s" by (cases "length s < 8") (simp_all add: toDense_def)
  with assms obtain tmp where s': "s' = (take 8 s @ tmp)[0 := 128 + 64]"
    by (auto simp: toDense_def split: Option.bind_splits)
  have sne: "s \<noteq> []" using l by (cases s) simp_all
  have "s' \<noteq> []" using sne by (simp add: s')
  moreover have "s' ! 0 = 192" using sne by (simp add: s' nth_list_update)
  ultimately have "(take 8 s' @ d) \<noteq> [] \<and> (take 8 s' @ d) ! 0 = 192"
    by (cases s') simp_all
  then show ?thesis by (simp add: HLL_IsSparse_def)
qed

lemma HLL_Add_full:
  assumes "h \<noteq> []" "h ! 0 AND 64 = 0" "sparse_Add h x = Some (full, s)" "HLL_Add h x = Some h'"
  shows "HLL_IsSparse h' = Some False"
proof -
  from HLL_Add_sparse[OF assms(1,2), of x] assms(3,4)
  obtain s' changed d where "toDense s = Some s'" "h' = take 8 s' @ d"
    by (auto split: option.splits prod.splits)
  then show ?thesis using toDense_dense by simp
qed

lemma HLL_Add_ok:
  assumes "h \<noteq> []" "h ! 0 AND 64 = 0" "sparse_Add h x = Some (ok, s)"
  shows "HLL_Add h x = Some s"
  using HLL_Add_sparse[OF assms(1,2), of x] assms(3) by simp

lemma sparse_ok_appended:
  assumes "sparse_size s = Some n" "unat n + 1 < length s div 8" "length s < 2 ^ 32"
  shows "sparse_ok (appended s n x)" and "set (hashes (appended s n x)) = insert x (set (hashes s))"
    and "length (appended s n x) = length s"
proof -
  have fit: "8 * unat n + 16 \<le> length s" using assms(2) by (rule room_fits)
  note ap = appended_props[OF assms(1) fit assms(3), of x]
  have u: "unat (n + 1) = unat n + 1" using append_step(3)[OF fit assms(3)] .
  have "8 + 8 * unat (n + 1) \<le> length (appended s n x)" using fit by (simp add: u ap(1))
  with ap assms(3) show "sparse_ok (appended s n x)"
    unfolding sparse_ok_def by auto
  show "set (hashes (appended s n x)) = insert x (set (hashes s))"
    by (simp add: hashes_def ap(5) dec64_enc64)
  show "length (appended s n x) = length s" by (rule ap(1))
qed

lemma sparse_okD:
  assumes "sparse_ok h"
  obtains n d where "h \<noteq> []" "h ! 0 AND 64 = 0" "length h < 2 ^ 32" "sparse_size h = Some n"
    "8 + 8 * unat n \<le> length h" "sparse_dirty h = Some d" "d \<or> unat n = card (set (hashes h))"
proof -
  from assms obtain n d where sp: "HLL_IsSparse h = Some True" and r: "length h < 2 ^ 32"
    "sparse_size h = Some n" "8 + 8 * unat n \<le> length h" "sparse_dirty h = Some d"
    "d \<or> unat n = card (set (hashes h))"
    unfolding sparse_ok_def by blast
  from sp have "h \<noteq> []" "h ! 0 AND 64 = 0" by (auto simp: HLL_IsSparse_def split: if_splits)
  from this r show thesis by (rule that)
qed

lemma HLL_Add_step:
  assumes "sparse_ok h" and a: "HLL_Add h x = Some h'"
  shows "HLL_IsSparse h' = Some False \<or>
         (sparse_ok h' \<and> set (hashes h') = insert x (set (hashes h)) \<and> length h' = length h)"
proof -
  from assms(1) obtain n d where ne: "h \<noteq> []" and m: "h ! 0 AND 64 = 0"
    and small: "length h < 2 ^ 32" and sz: "sparse_size h = Some n"
    and fit: "8 + 8 * unat n \<le> length h" and dr: "sparse_dirty h = Some d"
    by (rule sparse_okD)
  note cases = sparse_Add_cases[OF sz fit small dr, of x]
  show ?thesis
  proof (cases "int (unat n) < capacity h")
    case True
    with cases have "sparse_Add h x = Some (ok, appended h n x)" by simp
    from HLL_Add_ok[OF ne m this] a have h': "h' = appended h n x" by simp
    from True have "unat n + 1 < length h div 8" by (simp only: capacity_room)
    from sparse_ok_appended[OF sz this small, of x] show ?thesis by (simp add: h')
  next
    case room: False
    show ?thesis
    proof (cases d)
      case False
      with cases room have "sparse_Add h x = Some (full, h)" by simp
      from HLL_Add_full[OF ne m this a] show ?thesis by simp
    next
      case True
      with cases room have "\<exists>s' j. sparse_sort h = Some s' \<and> sparse_size s' = Some j \<and>
                 unat j = card (set (hashes h)) \<and> length s' = length h \<and>
                 sparse_Add h x = (if int (unat j) \<le> capacity h - 100
                                   then Some (ok, appended s' j x) else Some (full, s'))"
        by (simp only: if_False simp_thms)
      then obtain s' j where s': "sparse_sort h = Some s'" "sparse_size s' = Some j"
        "length s' = length h"
        and ad: "sparse_Add h x = (if int (unat j) \<le> capacity h - 100
                                   then Some (ok, appended s' j x) else Some (full, s'))"
        by blast
      from sparse_sort_props[OF sz fit small] s'(1) have sh: "set (hashes s') = set (hashes h)"
        by auto
      show ?thesis
      proof (cases "int (unat j) \<le> capacity h - 100")
        case True
        with ad have "sparse_Add h x = Some (ok, appended s' j x)" by simp
        from HLL_Add_ok[OF ne m this] a have h': "h' = appended s' j x" by simp
        from True have "unat j + 100 < length h div 8" by (simp only: capacity_slack)
        then have "unat j + 1 < length s' div 8" by (simp add: s'(3))
        from sparse_ok_appended[OF s'(2) this, of x] small show ?thesis
          by (simp add: h' s'(3) sh)
      next
        case False
        with ad have "sparse_Add h x = Some (full, s')" by simp
        from HLL_Add_full[OF ne m this a] show ?thesis by simp
      qed
    qed
  qed
qed

lemma HLL_EstimateCardinality_sparse:
  assumes "sparse_ok h"
  shows "\<exists>c h'. HLL_EstimateCardinality dense h = Some (c, h') \<and> unat c = card (set (hashes h)) \<and>
           sparse_ok h' \<and> set (hashes h') = set (hashes h) \<and> length h' = length h"
proof -
  from assms obtain n d where ne: "h \<noteq> []" and m: "h ! 0 AND 64 = 0"
    and small: "length h < 2 ^ 32" and sz: "sparse_size h = Some n"
    and fit: "8 + 8 * unat n \<le> length h" and dr: "sparse_dirty h = Some d"
    and cl: "d \<or> unat n = card (set (hashes h))"
    by (rule sparse_okD)
  have eq: "HLL_EstimateCardinality dense h =
              map_option (\<lambda>(n, s). (of_nat n, s)) (sparse_EstimateCardinality h)"
    using ne m by (simp add: HLL_EstimateCardinality_def)
  show ?thesis
  proof (cases d)
    case False
    with cl have c: "unat n = card (set (hashes h))" by simp
    have "sparse_EstimateCardinality h = Some (unat n, h)"
      using dr sz False by (simp add: sparse_EstimateCardinality_def)
    then have e: "HLL_EstimateCardinality dense h = Some (of_nat (unat n), h)" by (simp add: eq)
    have "unat n < 2 ^ 64" using fit small by simp
    then have "unat (of_nat (unat n) :: 64 word) = unat n"
      by (simp only: unat_of_nat) simp
    with e c assms show ?thesis by simp
  next
    case True
    from sparse_sort_props[OF sz fit small] obtain s' where s': "sparse_sort h = Some s'"
      "length s' = length h" "sparse_dirty s' = Some False"
      "sparse_size s' = Some (of_nat (length (stored s')))"
      "length (stored s') = card (set (hashes h))" "set (hashes s') = set (hashes h)"
      by blast
    define J where "J = length (stored s')"
    have "J \<le> length (hashes h)" unfolding J_def s'(5) by (rule card_length)
    also have "\<dots> = unat n" using stored_props(2)[OF sz fit] by (simp add: hashes_def)
    finally have JN: "J \<le> unat n" .
    then have J32: "J < 2 ^ 32" using fit small by simp
    then have uJ: "unat (of_nat J :: 32 word) = J" by (simp add: unat_of_nat)
    have "sparse_EstimateCardinality h = Some (J, s')"
      using dr True s'(1,4) uJ by (simp add: sparse_EstimateCardinality_def J_def)
    then have e: "HLL_EstimateCardinality dense h = Some (of_nat J, s')" by (simp add: eq)
    have "J < 2 ^ 64" using J32 by simp
    then have c: "unat (of_nat J :: 64 word) = card (set (hashes h))"
      by (simp add: unat_of_nat) (simp add: J_def s'(5))
    have sp: "HLL_IsSparse s' = Some True" using sz fit small s'(1) by (rule sparse_sort_sparse)
    have "8 + 8 * unat (of_nat J :: 32 word) \<le> length s'" using JN fit by (simp add: uJ s'(2))
    moreover have "unat (of_nat J :: 32 word) = card (set (hashes s'))"
      by (simp add: uJ s'(6)) (simp add: J_def s'(5))
    ultimately have "sparse_ok s'"
      unfolding sparse_ok_def using sp small s'(2,3,4) by (auto simp: J_def)
    with e c s'(2,6) show ?thesis by simp
  qed
qed

lemma run_dense:
  assumes "HLL_IsSparse h = Some False" "list_all adds_and_reads ops" "run dense h ops = Some h'"
  shows "HLL_IsSparse h' = Some False"
  using assms
proof (induction ops arbitrary: h)
  case Nil
  then show ?case by simp
next
  case (Cons op ops)
  from Cons.prems(3) obtain h1 where st: "step dense op h = Some h1" and r: "run dense h1 ops = Some h'"
    by (auto split: option.splits)
  have "HLL_IsSparse h1 = Some False"
  proof (cases op)
    case (Add x)
    with st have "HLL_Add h x = Some h1" by (simp add: step_def)
    with Cons.prems(1) show ?thesis by (rule HLL_Add_stays_dense)
  next
    case EstimateCardinality
    with st obtain c where "HLL_EstimateCardinality dense h = Some (c, h1)"
      by (auto simp: step_def)
    with Cons.prems(1) show ?thesis by (rule HLL_EstimateCardinality_stays_dense)
  next
    case IsSparse
    with st Cons.prems(1) show ?thesis by (auto simp: step_def)
  next
    case IsValid
    with st Cons.prems(1) show ?thesis by (auto simp: step_def)
  next
    case (Merge g)
    with Cons.prems(2) show ?thesis by simp
  next
    case Reset
    with Cons.prems(2) show ?thesis by simp
  qed
  moreover from Cons.prems(2) have "list_all adds_and_reads ops" by simp
  ultimately show ?case using r by (rule Cons.IH)
qed

lemma run_sparse:
  assumes "sparse_ok h" "list_all adds_and_reads ops" "run dense h ops = Some h'"
  shows "HLL_IsSparse h' = Some False \<or>
         (sparse_ok h' \<and> set (hashes h') = set (hashes h) \<union> set (added ops) \<and>
          length h' = length h)"
  using assms
proof (induction ops arbitrary: h)
  case Nil
  then show ?case by simp
next
  case (Cons op ops)
  from Cons.prems(3) obtain h1 where st: "step dense op h = Some h1" and r: "run dense h1 ops = Some h'"
    by (auto split: option.splits)
  from Cons.prems(2) have ops: "list_all adds_and_reads ops" by simp
  have "HLL_IsSparse h1 = Some False \<or>
        (sparse_ok h1 \<and> set (hashes h1) \<union> set (added ops) = set (hashes h) \<union> set (added (op # ops)) \<and>
         length h1 = length h)"
  proof (cases op)
    case (Add x)
    with st have "HLL_Add h x = Some h1" by (simp add: step_def)
    from HLL_Add_step[OF Cons.prems(1) this] Add show ?thesis by auto
  next
    case EstimateCardinality
    with st obtain c where "HLL_EstimateCardinality dense h = Some (c, h1)"
      by (auto simp: step_def)
    with HLL_EstimateCardinality_sparse[OF Cons.prems(1), of dense] EstimateCardinality
    show ?thesis by auto
  next
    case IsSparse
    with st Cons.prems(1) show ?thesis by (auto simp: step_def)
  next
    case IsValid
    with st Cons.prems(1) show ?thesis by (auto simp: step_def)
  next
    case (Merge g)
    with Cons.prems(2) show ?thesis by simp
  next
    case Reset
    with Cons.prems(2) show ?thesis by simp
  qed
  then show ?case
  proof
    assume "HLL_IsSparse h1 = Some False"
    from run_dense[OF this ops r] show ?thesis by simp
  next
    assume a: "sparse_ok h1 \<and> set (hashes h1) \<union> set (added ops) = set (hashes h) \<union> set (added (op # ops)) \<and>
         length h1 = length h"
    then have "sparse_ok h1" by simp
    from Cons.IH[OF this ops r] a show ?thesis by auto
  qed
qed






lemma ln_32_31: "1 / 32 \<le> ln (32 / 31 :: real)" "ln (32 / 31 :: real) \<le> 1 / 31"
proof -
  have "ln (1 + 1 / 31 :: real) \<le> 1 / 31" by (rule ln_add_one_self_le_self) simp
  then show "ln (32 / 31 :: real) \<le> 1 / 31" by simp
  have "ln (31 / 32 :: real) \<le> 31 / 32 - 1" by (rule ln_le_minus_one) simp
  moreover have "ln (31 / 32 :: real) = - ln (32 / 31)" by (simp add: ln_div)
  ultimately show "1 / 32 \<le> ln (32 / 31 :: real)" by simp
qed

lemma linearCounting_32_31:
  "linearCounting 32 31 \<le> 40" "\<lfloor>linearCounting 32 31 + 0.5\<rfloor> = 1"
proof -
  have l: "linearCounting 32 31 = 32 * ln (32 / 31)" by (simp add: linearCounting_def)
  from ln_32_31 have b: "1 \<le> linearCounting 32 31" "linearCounting 32 31 \<le> 32 / 31"
    unfolding l by simp_all
  from b(2) show "linearCounting 32 31 \<le> 40" by simp
  from b show "\<lfloor>linearCounting 32 31 + 0.5\<rfloor> = 1" by (simp add: floor_eq_iff)
qed

lemma promoted_estimate:
  "Dense_EstimateCardinality raw bias
     [236, 0, 0, 0, 0, 0, 0, 0, 0, 0, 0, 0, 0, 0, 0, 0, 0, 0, 0, 0, 0, 0, 0, 0] = Some 1"
proof -
  let ?d = "[236, 0, 0, 0, 0, 0, 0, 0, 0, 0, 0, 0, 0, 0, 0, 0, 0, 0, 0, 0, 0, 0, 0, 0 :: byte]"
  have loop: "EstimateCardinality_loop 0 ?d (0, 0) = Some (31 + 1 / 2 ^ 59, 31)"
    by (simp add: EstimateCardinality_loop.simps lookup_def)
  have m: "Dense_m ?d = 32" by (simp add: Dense_m_def)
  have ce: "correctedEstimate raw bias ?d s 31 = linearCounting 32 31" for s
    using linearCounting_32_31(1)
    by (simp add: correctedEstimate_def Let_def m threshold_def)
  show ?thesis
    unfolding Dense_EstimateCardinality_def
    by (simp only: loop bind.bind_lunit split Let_def ce linearCounting_32_31(2)) simp
qed


text \<open>
  Claim C8, as amended. Let the operations \<open>ops\<close>, each an \<open>Add\<close>, an \<open>EstimateCardinality\<close>,
  an \<open>IsSparse\<close> or an \<open>IsValid\<close>, run on an all-zero buffer of valid size. If
  \<open>EstimateCardinality\<close> then returns \<open>c\<close>, one more hash is added, and the buffer is still
  sparse, the next \<open>EstimateCardinality\<close> returns a value that is at least \<open>c\<close>.
\<close>

theorem estimate_monotone_while_sparse:
  assumes "HLL_IsValid (replicate L 0) = None" and "L < 2 ^ 63"
    and "list_all adds_and_reads ops"
    and "run dense (replicate L 0) ops = Some h"
    and "HLL_EstimateCardinality dense h = Some (c, h1)"
    and "HLL_Add h1 x = Some h2"
    and "HLL_IsSparse h2 = Some True"
  shows "\<exists>c' h3. HLL_EstimateCardinality dense h2 = Some (c', h3) \<and> c \<le> c'"
proof -
  from valid_length[of "replicate L 0"] assms(1,2) have L: "8 \<le> L" "L < 2 ^ 32" by simp_all
  note fr = sparse_ok_fresh[OF L]
  from run_sparse[OF fr(1) assms(3,4)] have "HLL_IsSparse h = Some False \<or> sparse_ok h" by blast
  then have ok: "sparse_ok h"
  proof
    assume "HLL_IsSparse h = Some False"
    then have "HLL_IsSparse h1 = Some False"
      using assms(5) by (rule HLL_EstimateCardinality_stays_dense)
    then have "HLL_IsSparse h2 = Some False" using assms(6) by (rule HLL_Add_stays_dense)
    with assms(7) show ?thesis by simp
  qed
  from HLL_EstimateCardinality_sparse[OF ok, of dense] assms(5)
  have c: "unat c = card (set (hashes h))" and ok1: "sparse_ok h1"
    and s1: "set (hashes h1) = set (hashes h)"
    by auto
  from HLL_Add_step[OF ok1 assms(6)] assms(7)
  have ok2: "sparse_ok h2" and s2: "set (hashes h2) = insert x (set (hashes h))"
    by (simp_all add: s1)
  from HLL_EstimateCardinality_sparse[OF ok2, of dense]
  obtain c' h3 where e: "HLL_EstimateCardinality dense h2 = Some (c', h3)"
    and c': "unat c' = card (set (hashes h2))"
    by blast
  have "card (set (hashes h)) \<le> card (insert x (set (hashes h)))"
    by (rule card_insert_le)
  then have "c \<le> c'" by (simp add: word_le_nat_alt c c' s2)
  with e show ?thesis by blast
qed

theorem estimate_monotone_while_sparse_witness:
  "HLL_IsValid (replicate 32 0) = None \<and> (32 :: nat) < 2 ^ 63 \<and>
   list_all adds_and_reads [Add 5, EstimateCardinality, Add 5] \<and>
   run (\<lambda>d. None) (replicate 32 0) [Add 5, EstimateCardinality, Add 5] =
     Some [128, 0, 0, 2, 0, 0, 0, 0, 5, 0, 0, 0, 0, 0, 0, 0, 5, 0, 0, 0, 0, 0, 0, 0,
           0, 0, 0, 0, 0, 0, 0, 0] \<and>
   HLL_EstimateCardinality (\<lambda>d. None)
     [128, 0, 0, 2, 0, 0, 0, 0, 5, 0, 0, 0, 0, 0, 0, 0, 5, 0, 0, 0, 0, 0, 0, 0,
      0, 0, 0, 0, 0, 0, 0, 0] =
     Some (1, [0, 0, 0, 1, 0, 0, 0, 0, 5, 0, 0, 0, 0, 0, 0, 0, 0, 0, 0, 0, 0, 0, 0, 0,
               0, 0, 0, 0, 0, 0, 0, 0]) \<and>
   HLL_Add [0, 0, 0, 1, 0, 0, 0, 0, 5, 0, 0, 0, 0, 0, 0, 0, 0, 0, 0, 0, 0, 0, 0, 0,
            0, 0, 0, 0, 0, 0, 0, 0] 9 =
     Some [128, 0, 0, 2, 0, 0, 0, 0, 5, 0, 0, 0, 0, 0, 0, 0, 9, 0, 0, 0, 0, 0, 0, 0,
           0, 0, 0, 0, 0, 0, 0, 0] \<and>
   HLL_IsSparse [128, 0, 0, 2, 0, 0, 0, 0, 5, 0, 0, 0, 0, 0, 0, 0, 9, 0, 0, 0, 0, 0, 0, 0,
                 0, 0, 0, 0, 0, 0, 0, 0] = Some True \<and>
   (\<exists>c' h3. HLL_EstimateCardinality (\<lambda>d. None)
        [128, 0, 0, 2, 0, 0, 0, 0, 5, 0, 0, 0, 0, 0, 0, 0, 9, 0, 0, 0, 0, 0, 0, 0,
         0, 0, 0, 0, 0, 0, 0, 0] = Some (c', h3) \<and> 1 \<le> c')"
proof -
  let ?h = "[128, 0, 0, 2, 0, 0, 0, 0, 5, 0, 0, 0, 0, 0, 0, 0, 5, 0, 0, 0, 0, 0, 0, 0,
             0, 0, 0, 0, 0, 0, 0, 0 :: byte]"
  let ?h1 = "[0, 0, 0, 1, 0, 0, 0, 0, 5, 0, 0, 0, 0, 0, 0, 0, 0, 0, 0, 0, 0, 0, 0, 0,
              0, 0, 0, 0, 0, 0, 0, 0 :: byte]"
  let ?h2 = "[128, 0, 0, 2, 0, 0, 0, 0, 5, 0, 0, 0, 0, 0, 0, 0, 9, 0, 0, 0, 0, 0, 0, 0,
              0, 0, 0, 0, 0, 0, 0, 0 :: byte]"
  have v: "HLL_IsValid (replicate 32 0) = None" by code_simp
  have l: "(32 :: nat) < 2 ^ 63" by simp
  have o: "list_all adds_and_reads [Add 5, EstimateCardinality, Add 5]" by simp
  have r: "run (\<lambda>d. None) (replicate 32 0) [Add 5, EstimateCardinality, Add 5] = Some ?h"
    by code_simp
  have e: "HLL_EstimateCardinality (\<lambda>d. None) ?h = Some (1, ?h1)" by code_simp
  have a: "HLL_Add ?h1 9 = Some ?h2" by code_simp
  have s: "HLL_IsSparse ?h2 = Some True" by code_simp
  from estimate_monotone_while_sparse[OF v l o r e a s] v l o r e a s
  show ?thesis by blast
qed

text \<open>
  Claim C8 as stated fails at the promotion. The hashes 32, 64 and 96 leave a buffer of
  32 bytes (precision 5) sparse and the estimate is 3. The hash 128 makes it dense; all
  four hashes fall into register 0, so 31 registers are counted empty and the estimate
  is \<open>32 ln (32/31)\<close>, rounded: 1. This holds whatever the bias tables are.
\<close>

theorem estimate_drops_at_promotion:
  "\<forall>raw bias.
     HLL_IsValid (replicate 32 0) = None \<and>
     Add_all (replicate 32 0) [32, 64, 96] =
       Some [128, 0, 0, 3, 0, 0, 0, 0, 32, 0, 0, 0, 0, 0, 0, 0, 64, 0, 0, 0, 0, 0, 0, 0,
             96, 0, 0, 0, 0, 0, 0, 0] \<and>
     HLL_EstimateCardinality (Dense_EstimateCardinality raw bias)
       [128, 0, 0, 3, 0, 0, 0, 0, 32, 0, 0, 0, 0, 0, 0, 0, 64, 0, 0, 0, 0, 0, 0, 0,
        96, 0, 0, 0, 0, 0, 0, 0] =
       Some (3, [0, 0, 0, 3, 0, 0, 0, 0, 32, 0, 0, 0, 0, 0, 0, 0, 64, 0, 0, 0, 0, 0, 0, 0,
                 96, 0, 0, 0, 0, 0, 0, 0]) \<and>
     HLL_Add [0, 0, 0, 3, 0, 0, 0, 0, 32, 0, 0, 0, 0, 0, 0, 0, 64, 0, 0, 0, 0, 0, 0, 0,
              96, 0, 0, 0, 0, 0, 0, 0] 128 =
       Some [192, 0, 0, 3, 0, 0, 0, 0, 236, 0, 0, 0, 0, 0, 0, 0, 0, 0, 0, 0, 0, 0, 0, 0,
             0, 0, 0, 0, 0, 0, 0, 0] \<and>
     (\<exists>h. HLL_EstimateCardinality (Dense_EstimateCardinality raw bias)
            [192, 0, 0, 3, 0, 0, 0, 0, 236, 0, 0, 0, 0, 0, 0, 0, 0, 0, 0, 0, 0, 0, 0, 0,
             0, 0, 0, 0, 0, 0, 0, 0] = Some (1, h)) \<and>
     (1 :: 64 word) < 3"
proof (intro allI)
  fix raw bias
  let ?a = "[128, 0, 0, 3, 0, 0, 0, 0, 32, 0, 0, 0, 0, 0, 0, 0, 64, 0, 0, 0, 0, 0, 0, 0,
             96, 0, 0, 0, 0, 0, 0, 0 :: byte]"
  let ?b = "[0, 0, 0, 3, 0, 0, 0, 0, 32, 0, 0, 0, 0, 0, 0, 0, 64, 0, 0, 0, 0, 0, 0, 0,
             96, 0, 0, 0, 0, 0, 0, 0 :: byte]"
  let ?c = "[192, 0, 0, 3, 0, 0, 0, 0, 236, 0, 0, 0, 0, 0, 0, 0, 0, 0, 0, 0, 0, 0, 0, 0,
             0, 0, 0, 0, 0, 0, 0, 0 :: byte]"
  have v: "HLL_IsValid (replicate 32 0) = None" by code_simp
  have a: "Add_all (replicate 32 0) [32, 64, 96] = Some ?a" by code_simp
  have "sparse_EstimateCardinality ?a = Some (3, ?b)" by code_simp
  then have e: "HLL_EstimateCardinality (Dense_EstimateCardinality raw bias) ?a = Some (3, ?b)"
    by (simp add: HLL_EstimateCardinality_def)
  have p: "HLL_Add ?b 128 = Some ?c" by code_simp
  have "drop 8 ?c = [236, 0, 0, 0, 0, 0, 0, 0, 0, 0, 0, 0, 0, 0, 0, 0, 0, 0, 0, 0, 0, 0, 0, 0]"
    by simp
  then have d: "Dense_EstimateCardinality raw bias (drop 8 ?c) = Some 1"
    by (simp only: promoted_estimate)
  have ne: "?c \<noteq> []" and m: "?c ! 0 AND 64 \<noteq> 0" by simp_all
  have "\<exists>h. HLL_EstimateCardinality (Dense_EstimateCardinality raw bias) ?c = Some (1, h)"
    unfolding HLL_EstimateCardinality_dense[OF ne m] d
    by (simp add: BigEndian_PutUint64_def)
  moreover have "(1 :: 64 word) < 3" by simp
  ultimately
  show "HLL_IsValid (replicate 32 0) = None \<and> Add_all (replicate 32 0) [32, 64, 96] = Some ?a \<and>
        HLL_EstimateCardinality (Dense_EstimateCardinality raw bias) ?a = Some (3, ?b) \<and>
        HLL_Add ?b 128 = Some ?c \<and>
        (\<exists>h. HLL_EstimateCardinality (Dense_EstimateCardinality raw bias) ?c = Some (1, h)) \<and>
        (1 :: 64 word) < 3"
    using v a e p by blast
qed

end
